theory Spec2Isabelle
  imports Main "HOL-Library.Sublist"
begin

section \<open>Strings and paths\<close>

text \<open>
  Python \<open>str\<close> values are modelled as \<open>string\<close> (lists of characters). The slicing
  forms used by the script are \<open>s[:j]\<close>, \<open>s[i:j]\<close> and \<open>s[i:]\<close> with constant,
  non-negative bounds; Python clips a slice at the end of the string and never raises.
\<close>

type_synonym path = string

definition slice_to :: "string \<Rightarrow> nat \<Rightarrow> string" where
  "slice_to s j = take j s"

definition slice :: "string \<Rightarrow> nat \<Rightarrow> nat \<Rightarrow> string" where
  "slice s i j = take (j - i) (drop i s)"

definition slice_from :: "string \<Rightarrow> nat \<Rightarrow> string" where
  "slice_from s i = drop i s"

definition startswith :: "string \<Rightarrow> string \<Rightarrow> bool" where
  "startswith s pre = (take (length pre) s = pre)"

definition endswith :: "string \<Rightarrow> string \<Rightarrow> bool" where
  "endswith s suf = (length suf \<le> length s \<and> drop (length s - length suf) s = suf)"

text \<open>
  \<open>os.path\<close> is taken in its POSIX form (\<open>posixpath\<close>), with separator \<open>/\<close>.
  \<open>join\<close> restarts at an absolute component and otherwise inserts one separator unless the
  path so far is empty or already ends with one.
\<close>

definition join2 :: "path \<Rightarrow> path \<Rightarrow> path" where
  "join2 p b =
     (if startswith b ''/'' \<or> p = [] then b
      else if endswith p ''/'' then p @ b
      else p @ ''/'' @ b)"

definition os_path_join :: "path \<Rightarrow> path list \<Rightarrow> path" where
  "os_path_join a ps = foldl join2 a ps"

text \<open>\<open>basename\<close> is what follows the last separator (everything, when there is none).\<close>

definition os_path_basename :: "path \<Rightarrow> path" where
  "os_path_basename p = rev (takeWhile (\<lambda>c. c \<noteq> CHR ''/'') (rev p))"

definition rstrip_sep :: "path \<Rightarrow> path" where
  "rstrip_sep p = rev (dropWhile (\<lambda>c. c = CHR ''/'') (rev p))"

definition os_path_dirname :: "path \<Rightarrow> path" where
  "os_path_dirname p =
     (let head = take (length p - length (os_path_basename p)) p
      in if head \<noteq> [] \<and> \<not> list_all (\<lambda>c. c = CHR ''/'') head then rstrip_sep head else head)"

text \<open>
  The proper ancestors of a path, outermost first: the prefixes that end just before a
  separator. \<open>a/b/c\<close> has the ancestors \<open>a\<close> and \<open>a/b\<close>; the root and the working
  directory are not listed, they always exist.
\<close>

definition ancestors :: "path \<Rightarrow> path list" where
  "ancestors p =
     map (\<lambda>i. take i p)
       (filter (\<lambda>i. p ! i = CHR ''/'' \<and> p ! (i - 1) \<noteq> CHR ''/'') [1 ..< length p])"

section \<open>The date reformatting and the URL template\<close>

text \<open>Line 31: \<^verbatim>\<open>date_fmt = f"{date[:4]}_{date[4:6]}_{date[6:]}"\<close>.\<close>

definition date_fmt :: "string \<Rightarrow> string" where
  "date_fmt date = slice_to date 4 @ ''_'' @ slice date 4 6 @ ''_'' @ slice_from date 6"

text \<open>Line 32: \<^verbatim>\<open>target_dir = os.path.join(base_dir, date_fmt, time)\<close>.\<close>

definition target_dir :: "path \<Rightarrow> string \<Rightarrow> string \<Rightarrow> path" where
  "target_dir base_dir date time = os_path_join base_dir [date_fmt date, time]"

datatype error =
    FileExistsError
  | NotADirectoryError
  | FileNotFoundError
  | IsADirectoryError
  | RequestException
  | FormatError

text \<open>
  \<open>str.format\<close> with keyword arguments only, for templates made of literal text, the
  escapes \<open>{{\<close> and \<open>}}\<close>, and plain named fields \<open>{name}\<close>. The second argument is the
  field name being read, if any. A field that names no keyword argument, a single \<open>}\<close>
  and an unclosed \<open>{\<close> raise (\<open>KeyError\<close>, \<open>IndexError\<close> or \<open>ValueError\<close> in Python, all
  \<open>FormatError\<close> here). Conversions, format specifications, attribute and index lookups
  inside a field are not evaluated by this model: such a field names no keyword argument
  and is reported as \<open>FormatError\<close> too. The template of the script uses none of them.
\<close>

fun format_from :: "(string \<times> string) list \<Rightarrow> string option \<Rightarrow> string \<Rightarrow> error + string" where
  "format_from kw None [] = Inr []"
| "format_from kw (Some name) [] = Inl FormatError"
| "format_from kw None (c # cs) =
     (if c = CHR ''{'' then
        (case cs of
           c' # cs' \<Rightarrow>
             if c' = CHR ''{'' then map_sum id ((#) CHR ''{'') (format_from kw None cs')
             else format_from kw (Some []) cs
         | [] \<Rightarrow> format_from kw (Some []) cs)
      else if c = CHR ''}'' then
        (case cs of
           c' # cs' \<Rightarrow>
             if c' = CHR ''}'' then map_sum id ((#) CHR ''}'') (format_from kw None cs')
             else Inl FormatError
         | [] \<Rightarrow> Inl FormatError)
      else map_sum id ((#) c) (format_from kw None cs))"
| "format_from kw (Some name) (c # cs) =
     (if c = CHR ''}'' then
        (case map_of kw name of
           None \<Rightarrow> Inl FormatError
         | Some v \<Rightarrow> map_sum id ((@) v) (format_from kw None cs))
      else format_from kw (Some (name @ [c])) cs)"

definition str_format :: "string \<Rightarrow> (string \<times> string) list \<Rightarrow> error + string" where
  "str_format template kw = format_from kw None template"

text \<open>Line 38: \<^verbatim>\<open>url_template.format(date=date, time=time, file_type=t)\<close>.\<close>

definition format_url :: "string \<Rightarrow> string \<Rightarrow> string \<Rightarrow> string \<Rightarrow> error + string" where
  "format_url template date time t =
     str_format template [(''date'', date), (''time'', time), (''file_type'', t)]"

section \<open>The environment: file system, server, console\<close>

text \<open>
  A file system maps a path to a directory or to a regular file with its content. Paths are
  identified by their spelling (no symbolic links, no \<open>.\<close> or \<open>..\<close> components), and only
  the failures that depend on what exists are modelled; permissions and full disks are not.
\<close>

datatype node = Dir | File string

type_synonym filesystem = "path \<Rightarrow> node option"

text \<open>
  What the server answers to a GET: the status code, the \<open>href\<close> of every \<open>a\<close> element
  that \<open>BeautifulSoup(response.text, 'html.parser').find_all('a')\<close> yields, in document
  order (\<open>None\<close> for an element without the attribute, as \<open>link.get('href')\<close> returns),
  the chunks that \<open>iter_content\<close> yields, and whether the stream raises after them.
  The answer may depend on how many requests were issued before; \<open>None\<close> is a request
  that raises (a transport error).
\<close>

record response =
  status_code :: int
  links :: "string option list"
  iter_content :: "string list"
  stream_fails :: bool

type_synonym world = "nat \<Rightarrow> string \<Rightarrow> response option"

record state =
  fs :: filesystem
  requests :: nat

datatype message =
    FileDownloaded string
  | AllDownloaded string string
  | FailedToAccess string

text \<open>The text of the three \<open>print\<close> calls (lines 57, 59 and 61).\<close>

fun text_of :: "message \<Rightarrow> string" where
  "text_of (FileDownloaded file_name) = file_name @ '' downloaded.''"
| "text_of (AllDownloaded date time) =
     ''All files have been downloaded for '' @ date @ '' at '' @ time @ ''.''"
| "text_of (FailedToAccess url) = ''Failed to access '' @ url"

text \<open>
  What a run does, in order: a GET (with its \<open>stream\<close> flag: \<open>False\<close> for a listing,
  \<open>True\<close> for a file), a directory creation, a file opened for writing, a chunk written,
  a line printed. A request is recorded when it is issued, the file system events when
  they succeed.
\<close>

datatype event =
    Get string bool
  | Makedirs path
  | Open path
  | Write path string
  | Print message

type_synonym result = "error option \<times> state \<times> event list"

definition os_path_exists :: "state \<Rightarrow> path \<Rightarrow> bool" where
  "os_path_exists s p = (fs s p \<noteq> None)"

definition is_file :: "node option \<Rightarrow> bool" where
  "is_file n = (case n of Some (File c) \<Rightarrow> True | _ \<Rightarrow> False)"

text \<open>
  \<open>os.makedirs(p)\<close> without \<open>exist_ok\<close>: raises when \<open>p\<close> exists, and when an ancestor is
  a regular file; otherwise creates \<open>p\<close> and every missing ancestor.
\<close>

definition os_makedirs :: "path \<Rightarrow> state \<Rightarrow> result" where
  "os_makedirs p s =
     (if fs s p \<noteq> None then (Some FileExistsError, s, [])
      else if list_ex (\<lambda>a. is_file (fs s a)) (ancestors p) then (Some NotADirectoryError, s, [])
      else (None,
            s\<lparr>fs := (\<lambda>q. if q = p \<or> q \<in> set (ancestors p) then Some Dir else fs s q)\<rparr>,
            [Makedirs p]))"

text \<open>
  \<open>open(p, 'wb')\<close>: raises when \<open>p\<close> is a directory and when its parent is not one;
  otherwise the file exists afterwards and is empty. A parent that is the working
  directory or the root always exists.
\<close>

definition parent_is_dir :: "filesystem \<Rightarrow> path \<Rightarrow> bool" where
  "parent_is_dir f p =
     (let d = os_path_dirname p
      in d = [] \<or> list_all (\<lambda>c. c = CHR ''/'') d \<or> f d = Some Dir)"

definition open_wb :: "path \<Rightarrow> state \<Rightarrow> result" where
  "open_wb p s =
     (if fs s p = Some Dir then (Some IsADirectoryError, s, [])
      else if \<not> parent_is_dir (fs s) p then
        (Some (if is_file (fs s (os_path_dirname p)) then NotADirectoryError
               else FileNotFoundError), s, [])
      else (None, s\<lparr>fs := (fs s)(p \<mapsto> File [])\<rparr>, [Open p]))"

definition content :: "filesystem \<Rightarrow> path \<Rightarrow> string" where
  "content f p = (case f p of Some (File c) \<Rightarrow> c | _ \<Rightarrow> [])"

text \<open>Lines 54-55: \<^verbatim>\<open>for chunk in r.iter_content(chunk_size=8192): f.write(chunk)\<close>.\<close>

fun write_chunks :: "path \<Rightarrow> string list \<Rightarrow> state \<Rightarrow> state \<times> event list" where
  "write_chunks p [] s = (s, [])"
| "write_chunks p (chunk # chunks) s =
     (case write_chunks p chunks (s\<lparr>fs := (fs s)(p \<mapsto> File (content (fs s) p @ chunk))\<rparr>) of
        (s', evs) \<Rightarrow> (s', Write p chunk # evs))"

text \<open>\<open>requests.get\<close>: the request is issued, and the server's answer is the result.\<close>

definition requests_get :: "world \<Rightarrow> string \<Rightarrow> bool \<Rightarrow> state \<Rightarrow> response option \<times> state \<times> event list" where
  "requests_get w url stream s = (w (requests s) url, s\<lparr>requests := Suc (requests s)\<rparr>, [Get url stream])"

section \<open>The script\<close>

text \<open>
  Lines 47-57, the body of \<open>if href and href.endswith('.grib2')\<close>: the file is requested
  first, then opened, then written chunk by chunk, then reported.
\<close>

definition download_file :: "world \<Rightarrow> string \<Rightarrow> path \<Rightarrow> string \<Rightarrow> state \<Rightarrow> result" where
  "download_file w url tdir href s =
     (let file_name = os_path_basename href;
          file_url = url @ file_name;
          file_path = os_path_join tdir [file_name]
      in case requests_get w file_url True s of
           (None, s1, evs1) \<Rightarrow> (Some RequestException, s1, evs1)
         | (Some r, s1, evs1) \<Rightarrow>
             (case open_wb file_path s1 of
                (Some e, s2, evs2) \<Rightarrow> (Some e, s2, evs1 @ evs2)
              | (None, s2, evs2) \<Rightarrow>
                  (case write_chunks file_path (iter_content r) s2 of
                     (s3, evs3) \<Rightarrow>
                       if stream_fails r then (Some RequestException, s3, evs1 @ evs2 @ evs3)
                       else (None, s3, evs1 @ evs2 @ evs3 @ [Print (FileDownloaded file_name)]))))"

text \<open>Lines 44-57: \<^verbatim>\<open>for link in links\<close>.\<close>

fun links_loop :: "world \<Rightarrow> string \<Rightarrow> path \<Rightarrow> string option list \<Rightarrow> state \<Rightarrow> result" where
  "links_loop w url tdir [] s = (None, s, [])"
| "links_loop w url tdir (href # rest) s =
     (case href of
        None \<Rightarrow> links_loop w url tdir rest s
      | Some h \<Rightarrow>
          if h \<noteq> [] \<and> endswith h ''.grib2'' then
            (case download_file w url tdir h s of
               (Some e, s1, evs1) \<Rightarrow> (Some e, s1, evs1)
             | (None, s1, evs1) \<Rightarrow>
                 (case links_loop w url tdir rest s1 of
                    (r, s2, evs2) \<Rightarrow> (r, s2, evs1 @ evs2)))
          else links_loop w url tdir rest s)"

text \<open>Lines 37-61: \<^verbatim>\<open>for t in types\<close>.\<close>

fun types_loop ::
  "world \<Rightarrow> string \<Rightarrow> string \<Rightarrow> string \<Rightarrow> path \<Rightarrow> string list \<Rightarrow> state \<Rightarrow> result" where
  "types_loop w url_template date time tdir [] s = (None, s, [])"
| "types_loop w url_template date time tdir (t # types) s =
     (case format_url url_template date time t of
        Inl e \<Rightarrow> (Some e, s, [])
      | Inr url \<Rightarrow>
          (case requests_get w url False s of
             (None, s1, evs1) \<Rightarrow> (Some RequestException, s1, evs1)
           | (Some response, s1, evs1) \<Rightarrow>
               if status_code response = 200 then
                 (case links_loop w url tdir (links response) s1 of
                    (Some e, s2, evs2) \<Rightarrow> (Some e, s2, evs1 @ evs2)
                  | (None, s2, evs2) \<Rightarrow>
                      (case types_loop w url_template date time tdir types s2 of
                         (r, s3, evs3) \<Rightarrow>
                           (r, s3, evs1 @ evs2 @ [Print (AllDownloaded date time)] @ evs3)))
               else
                 (case types_loop w url_template date time tdir types s1 of
                    (r, s3, evs3) \<Rightarrow> (r, s3, evs1 @ [Print (FailedToAccess url)] @ evs3))))"

text \<open>Lines 20-61.\<close>

definition download_grib_files ::
  "world \<Rightarrow> string \<Rightarrow> string \<Rightarrow> path \<Rightarrow> string \<Rightarrow> string list \<Rightarrow> state \<Rightarrow> result" where
  "download_grib_files w url_template date base_dir time types s =
     (let tdir = target_dir base_dir date time
      in case (if \<not> os_path_exists s tdir then os_makedirs tdir s else (None, s, [])) of
           (Some e, s1, evs1) \<Rightarrow> (Some e, s1, evs1)
         | (None, s1, evs1) \<Rightarrow>
             (case types_loop w url_template date time tdir types s1 of
                (r, s2, evs2) \<Rightarrow> (r, s2, evs1 @ evs2)))"

text \<open>Lines 71-77. A \<open>dict\<close> literal is iterated in the order it is written.\<close>

definition url_template :: string where
  "url_template = ''https://data.ecmwf.int/forecasts/{date}/{time}/ifs/0p25/{file_type}/''"

definition times_types :: "(string \<times> string list) list" where
  "times_types =
     [(''00z'', [''oper'', ''wave'']),
      (''12z'', [''oper'', ''wave'']),
      (''06z'', [''scda'', ''scwv'']),
      (''18z'', [''scda'', ''scwv''])]"

text \<open>Lines 80-81: \<^verbatim>\<open>for time, types in times_types.items()\<close>.\<close>

fun slots_loop :: "world \<Rightarrow> string \<Rightarrow> path \<Rightarrow> (string \<times> string list) list \<Rightarrow> state \<Rightarrow> result" where
  "slots_loop w date base_dir [] s = (None, s, [])"
| "slots_loop w date base_dir ((time, types) # rest) s =
     (case download_grib_files w url_template date base_dir time types s of
        (Some e, s1, evs1) \<Rightarrow> (Some e, s1, evs1)
      | (None, s1, evs1) \<Rightarrow>
          (case slots_loop w date base_dir rest s1 of
             (r, s2, evs2) \<Rightarrow> (r, s2, evs1 @ evs2)))"

text \<open>Lines 63-81: \<^verbatim>\<open>for date in dates\<close>.\<close>

fun lists_by_dates :: "world \<Rightarrow> string list \<Rightarrow> path \<Rightarrow> state \<Rightarrow> result" where
  "lists_by_dates w [] base_dir s = (None, s, [])"
| "lists_by_dates w (date # dates) base_dir s =
     (case slots_loop w date base_dir times_types s of
        (Some e, s1, evs1) \<Rightarrow> (Some e, s1, evs1)
      | (None, s1, evs1) \<Rightarrow>
          (case lists_by_dates w dates base_dir s1 of
             (r, s2, evs2) \<Rightarrow> (r, s2, evs1 @ evs2)))"

section \<open>Observations on a run\<close>

text \<open>The URLs of the listing requests, of the file requests, and the files opened, in order.\<close>

definition listing_urls :: "event list \<Rightarrow> string list" where
  "listing_urls evs =
     concat (map (\<lambda>e. case e of Get u stream \<Rightarrow> if stream then [] else [u] | _ \<Rightarrow> []) evs)"

definition file_urls :: "event list \<Rightarrow> string list" where
  "file_urls evs =
     concat (map (\<lambda>e. case e of Get u stream \<Rightarrow> if stream then [u] else [] | _ \<Rightarrow> []) evs)"

definition opened :: "event list \<Rightarrow> path list" where
  "opened evs = concat (map (\<lambda>e. case e of Open p \<Rightarrow> [p] | _ \<Rightarrow> []) evs)"

definition printed :: "event list \<Rightarrow> message list" where
  "printed evs = concat (map (\<lambda>e. case e of Print m \<Rightarrow> [m] | _ \<Rightarrow> []) evs)"

text \<open>The listing URL of a (date, slot, product type) triple, as the template spells it.\<close>

definition listing_url :: "string \<Rightarrow> string \<Rightarrow> string \<Rightarrow> string" where
  "listing_url date time t =
     ''https://data.ecmwf.int/forecasts/'' @ date @ ''/'' @ time @ ''/ifs/0p25/'' @ t @ ''/''"

text \<open>The triples of a sweep: date-major, then the slot table, then the slot's type list.\<close>

definition slot_listings :: "string \<Rightarrow> (string \<times> string list) list \<Rightarrow> string list" where
  "slot_listings date table = concat (map (\<lambda>(time, types). map (listing_url date time) types) table)"

definition sweep_listings :: "string list \<Rightarrow> string list" where
  "sweep_listings dates = concat (map (\<lambda>date. slot_listings date times_types) dates)"

text \<open>
  The anchors that count as download candidates: the \<open>href\<close> is present and ends with
  \<open>.grib2\<close>. Their \<open>href\<close>s, in document order.
\<close>

definition selected_hrefs :: "string option list \<Rightarrow> string list" where
  "selected_hrefs ls =
     concat (map (\<lambda>href. case href of None \<Rightarrow> [] | Some h \<Rightarrow> if endswith h ''.grib2'' then [h] else []) ls)"

text \<open>
  How many of the lines printed are the completion message of a slot, and how many report
  a listing that could not be accessed.
\<close>

definition completions :: "event list \<Rightarrow> nat" where
  "completions evs =
     length (filter (\<lambda>m. case m of AllDownloaded d t \<Rightarrow> True | _ \<Rightarrow> False) (printed evs))"

definition failures :: "event list \<Rightarrow> nat" where
  "failures evs =
     length (filter (\<lambda>m. case m of FailedToAccess u \<Rightarrow> True | _ \<Rightarrow> False) (printed evs))"

text \<open>The paths of the file events of a run: every file opened and every chunk written.\<close>

definition touched :: "event list \<Rightarrow> path list" where
  "touched evs = concat (map (\<lambda>e. case e of Open p \<Rightarrow> [p] | Write p c \<Rightarrow> [p] | _ \<Rightarrow> []) evs)"

text \<open>
  A monitor for the order of directory creation and file events: reading the events of a
  run from the first on, no file is opened or written before the directory \<open>d\<close> is there.
  \<open>ready\<close> says whether \<open>d\<close> is a directory when the run starts; afterwards it is one
  as soon as the run has created it.
\<close>

fun created_before_writes :: "path \<Rightarrow> bool \<Rightarrow> event list \<Rightarrow> bool" where
  "created_before_writes d ready [] = True"
| "created_before_writes d ready (Makedirs p # es) = created_before_writes d (ready \<or> p = d) es"
| "created_before_writes d ready (Open p # es) = (ready \<and> created_before_writes d ready es)"
| "created_before_writes d ready (Write p c # es) = (ready \<and> created_before_writes d ready es)"
| "created_before_writes d ready (Get u stream # es) = created_before_writes d ready es"
| "created_before_writes d ready (Print m # es) = created_before_writes d ready es"

text \<open>
  A server that answers every request, and whose listings with status 200 show no anchor
  that is a download candidate: nothing is ever downloaded from it.
\<close>

definition nothing_to_download :: "world \<Rightarrow> bool" where
  "nothing_to_download w =
     (\<forall>n url. \<exists>resp. w n url = Some resp \<and> (status_code resp \<noteq> 200 \<or> selected_hrefs (links resp) = []))"

text \<open>
  What downloading a list of \<open>href\<close>s into the directory \<open>tdir\<close> amounts to when nothing
  goes wrong, stated without the loop: for each \<open>href\<close> in turn, the file named by its
  final path component is requested at the listing URL followed by that name, and the
  body of the answer becomes the content of the file of that name in \<open>tdir\<close>; the
  request, the opening, one write per chunk and the report are the events.
\<close>

fun downloaded :: "world \<Rightarrow> string \<Rightarrow> path \<Rightarrow> string list \<Rightarrow> state \<Rightarrow> state \<times> event list" where
  "downloaded w url tdir [] s = (s, [])"
| "downloaded w url tdir (h # hs) s =
     (let name = os_path_basename h;
          p = os_path_join tdir [name];
          body = (case w (requests s) (url @ name) of Some r \<Rightarrow> iter_content r | None \<Rightarrow> [])
      in case downloaded w url tdir hs
                (s\<lparr>fs := (fs s)(p \<mapsto> File (concat body)), requests := Suc (requests s)\<rparr>) of
           (s', evs) \<Rightarrow>
             (s', [Get (url @ name) True, Open p] @ map (Write p) body @
                  [Print (FileDownloaded name)] @ evs))"

text \<open>
  How many listing requests among the events were answered with status 200, when the
  first request of the events is the \<open>n\<close>-th request the server sees: the answer to a
  request is the one the server gives at that point of the count.
\<close>

fun answered_200 :: "world \<Rightarrow> nat \<Rightarrow> event list \<Rightarrow> nat" where
  "answered_200 w n [] = 0"
| "answered_200 w n (Get u stream # es) =
     (if \<not> stream \<and> (case w n u of Some r \<Rightarrow> status_code r = 200 | None \<Rightarrow> False) then 1 else 0) +
     answered_200 w (Suc n) es"
| "answered_200 w n (Makedirs p # es) = answered_200 w n es"
| "answered_200 w n (Open p # es) = answered_200 w n es"
| "answered_200 w n (Write p c # es) = answered_200 w n es"
| "answered_200 w n (Print m # es) = answered_200 w n es"

text \<open>
  A directory can be created when none of its ancestors is a regular file. The target
  directories of a sweep, in the order the sweep comes to them.
\<close>

definition creatable :: "filesystem \<Rightarrow> path \<Rightarrow> bool" where
  "creatable f p = (\<not> list_ex (\<lambda>a. is_file (f a)) (ancestors p))"

definition sweep_dirs :: "path \<Rightarrow> string list \<Rightarrow> path list" where
  "sweep_dirs base_dir dates =
     concat (map (\<lambda>date. map (\<lambda>(time, types). target_dir base_dir date time) times_types) dates)"

section \<open>Concrete runs\<close>

text \<open>
  An empty file system, and a server on which only the \<open>oper\<close> listings exist: each shows
  four anchors, two of them \<open>.grib2\<close> files; every file is served in two chunks.
\<close>

definition empty_state :: state where
  "empty_state = \<lparr>fs = (\<lambda>p. None), requests = 0\<rparr>"

definition oper_world :: world where
  "oper_world n url =
     (if endswith url ''.grib2'' then
        Some \<lparr>status_code = 200, links = [], iter_content = [''GR'', ''IB''], stream_fails = False\<rparr>
      else if endswith url ''/oper/'' then
        Some \<lparr>status_code = 200,
              links = [Some ''a.grib2'', Some ''b.txt'', None, Some ''/x/c.grib2''],
              iter_content = [], stream_fails = False\<rparr>
      else
        Some \<lparr>status_code = 404, links = [], iter_content = [], stream_fails = False\<rparr>)"

text \<open>A file system in which the directory \<open>out\<close> exists and nothing else.\<close>

definition out_state :: state where
  "out_state = \<lparr>fs = (\<lambda>p. if p = ''out'' then Some Dir else None), requests = 0\<rparr>"

text \<open>A server on which every listing exists and is empty.\<close>

definition ok_world :: world where
  "ok_world n url =
     Some \<lparr>status_code = 200, links = [], iter_content = [], stream_fails = False\<rparr>"

text \<open>A server whose first answer has another body than the later ones.\<close>

definition changing_world :: world where
  "changing_world n url =
     Some \<lparr>status_code = 200, links = [],
           iter_content = (if n = 0 then [''first '', ''body''] else [''2nd'']),
           stream_fails = False\<rparr>"

text \<open>
  A server on which every listing shows one file, and every request for a file raises.
\<close>

definition broken_world :: world where
  "broken_world n url =
     (if endswith url ''.grib2'' then None
      else Some \<lparr>status_code = 200, links = [Some ''a.grib2''], iter_content = [], stream_fails = False\<rparr>)"

text \<open>A server on which nothing exists.\<close>

definition absent_world :: world where
  "absent_world n url =
     Some \<lparr>status_code = 404, links = [], iter_content = [], stream_fails = False\<rparr>"

text \<open>A server on which nothing exists, and whose second request raises.\<close>

definition refusing_world :: world where
  "refusing_world n url =
     (if n = 1 then None
      else Some \<lparr>status_code = 404, links = [], iter_content = [], stream_fails = False\<rparr>)"

text \<open>A file system that holds one regular file, outside every target directory.\<close>

definition notes_state :: state where
  "notes_state = \<lparr>fs = (\<lambda>p. if p = ''notes.txt'' then Some (File ''n'') else None), requests = 0\<rparr>"

section \<open>Properties\<close>

text \<open>
  C2: for every 8-character date token \<open>d\<close>, the reformatted date used for the directory
  name is \<open>d[0:4] + "_" + d[4:6] + "_" + d[6:8]\<close>: plain positional slicing, with no
  check that the token is a calendar date.
\<close>

theorem date_fmt_slices:
  "length d = 8 \<Longrightarrow>
     date_fmt d = slice d 0 4 @ ''_'' @ slice d 4 6 @ ''_'' @ slice d 6 8 \<and>
     target_dir base_dir d time =
       os_path_join base_dir [slice d 0 4 @ ''_'' @ slice d 4 6 @ ''_'' @ slice d 6 8, time]"
  by (simp add: date_fmt_def target_dir_def slice_def slice_to_def slice_from_def)

theorem date_fmt_slices_witness:
  "length ''2024ab99'' = 8 \<and> date_fmt ''2024ab99'' = ''2024_ab_99'' \<and>
   target_dir ''out'' ''2024ab99'' ''00z'' = ''out/2024_ab_99/00z''"
  using date_fmt_slices [of "''2024ab99''" "''out''" "''00z''"]
  by (simp add: slice_def os_path_join_def join2_def startswith_def endswith_def)

lemma format_url_template:
  "format_url url_template date time t = Inr (listing_url date time t)"
  by (simp add: format_url_def str_format_def url_template_def listing_url_def)

lemma listing_urls_append [simp]: "listing_urls (xs @ ys) = listing_urls xs @ listing_urls ys"
  by (simp add: listing_urls_def)

lemma listing_urls_Nil [simp]: "listing_urls [] = []"
  by (simp add: listing_urls_def)

lemma listing_urls_Cons [simp]:
  "listing_urls (e # es) = (case e of Get u stream \<Rightarrow> if stream then [] else [u] | _ \<Rightarrow> []) @ listing_urls es"
  by (simp add: listing_urls_def)

lemma write_chunks_listing: "write_chunks p cs s = (s', evs) \<Longrightarrow> listing_urls evs = []"
  by (induction cs arbitrary: s s' evs) (auto split: prod.splits)

lemma download_file_listing:
  "download_file w url tdir h s = (r, s', evs) \<Longrightarrow> listing_urls evs = []"
  by (auto simp: download_file_def requests_get_def open_wb_def Let_def
      split: prod.splits option.splits if_splits dest: write_chunks_listing)

lemma links_loop_listing:
  "links_loop w url tdir ls s = (r, s', evs) \<Longrightarrow> listing_urls evs = []"
proof (induction ls arbitrary: s r s' evs)
  case Nil
  then show ?case by simp
next
  case (Cons href rest)
  then show ?case
    by (auto split: option.splits if_splits prod.splits dest: download_file_listing)
qed


lemma types_loop_listing:
  "types_loop w url_template date time tdir types s = (r, s', evs) \<Longrightarrow>
     prefix (listing_urls evs) (map (listing_url date time) types) \<and>
     (r = None \<longrightarrow> listing_urls evs = map (listing_url date time) types)"
proof (induction types arbitrary: s r s' evs)
  case Nil
  then show ?case by simp
next
  case (Cons t types)
  show ?case
  proof (cases "w (requests s) (listing_url date time t)")
    case None
    with Cons.prems show ?thesis
      by (auto simp: format_url_template requests_get_def)
  next
    case (Some resp)
    let ?s1 = "s\<lparr>requests := Suc (requests s)\<rparr>"
    show ?thesis
    proof (cases "status_code resp = 200")
      case False
      obtain r3 s3 evs3 where rest: "types_loop w url_template date time tdir types ?s1 = (r3, s3, evs3)"
        by (metis prod_cases3)
      from Cons.prems Some False rest
      have "r = r3" and "evs = [Get (listing_url date time t) False] @ [Print (FailedToAccess (listing_url date time t))] @ evs3"
        by (simp_all add: format_url_template requests_get_def)
      with Cons.IH [OF rest] show ?thesis by simp
    next
      case True
      obtain r2 s2 evs2 where ll: "links_loop w (listing_url date time t) tdir (links resp) ?s1 = (r2, s2, evs2)"
        by (metis prod_cases3)
      have l2: "listing_urls evs2 = []" using ll by (rule links_loop_listing)
      show ?thesis
      proof (cases r2)
        case (Some e)
        with Cons.prems \<open>w (requests s) (listing_url date time t) = Some resp\<close> True ll l2
        show ?thesis
          by (auto simp: format_url_template requests_get_def)
      next
        case None
        obtain r3 s3 evs3 where rest: "types_loop w url_template date time tdir types s2 = (r3, s3, evs3)"
          by (metis prod_cases3)
        from Cons.prems \<open>w (requests s) (listing_url date time t) = Some resp\<close> True ll None rest
        have "r = r3" and "evs = [Get (listing_url date time t) False] @ evs2 @ [Print (AllDownloaded date time)] @ evs3"
          by (simp_all add: format_url_template requests_get_def)
        with Cons.IH [OF rest] l2 show ?thesis by simp
      qed
    qed
  qed
qed

lemma download_grib_files_listing:
  "download_grib_files w url_template date base_dir time types s = (r, s', evs) \<Longrightarrow>
     prefix (listing_urls evs) (map (listing_url date time) types) \<and>
     (r = None \<longrightarrow> listing_urls evs = map (listing_url date time) types)"
  by (auto simp: download_grib_files_def os_makedirs_def Let_def
      split: if_splits prod.splits option.splits dest: types_loop_listing)

lemma slots_loop_listing:
  "slots_loop w date base_dir table s = (r, s', evs) \<Longrightarrow>
     prefix (listing_urls evs) (slot_listings date table) \<and>
     (r = None \<longrightarrow> listing_urls evs = slot_listings date table)"
proof (induction table arbitrary: s r s' evs)
  case Nil
  then show ?case by (simp add: slot_listings_def)
next
  case (Cons entry table)
  obtain time types where entry: "entry = (time, types)" by (cases entry)
  obtain r1 s1 evs1 where d: "download_grib_files w url_template date base_dir time types s = (r1, s1, evs1)"
    by (metis prod_cases3)
  note d1 = download_grib_files_listing [OF d]
  have unfold: "slot_listings date (entry # table) = map (listing_url date time) types @ slot_listings date table"
    by (simp add: slot_listings_def entry)
  show ?case
  proof (cases r1)
    case (Some e)
    with Cons.prems entry d d1 show ?thesis
      unfolding unfold by (auto intro: prefix_prefix)
  next
    case None
    obtain r2 s2 evs2 where rest: "slots_loop w date base_dir table s1 = (r2, s2, evs2)"
      by (metis prod_cases3)
    from Cons.prems entry d None rest have "r = r2" and "evs = evs1 @ evs2" by simp_all
    with Cons.IH [OF rest] d1 None show ?thesis by (simp add: unfold)
  qed
qed

lemma lists_by_dates_listing:
  "lists_by_dates w dates base_dir s = (r, s', evs) \<Longrightarrow>
     prefix (listing_urls evs) (sweep_listings dates) \<and>
     (r = None \<longrightarrow> listing_urls evs = sweep_listings dates)"
proof (induction dates arbitrary: s r s' evs)
  case Nil
  then show ?case by (simp add: sweep_listings_def)
next
  case (Cons date dates)
  obtain r1 s1 evs1 where d: "slots_loop w date base_dir times_types s = (r1, s1, evs1)"
    by (metis prod_cases3)
  note d1 = slots_loop_listing [OF d]
  have unfold: "sweep_listings (date # dates) = slot_listings date times_types @ sweep_listings dates"
    by (simp add: sweep_listings_def)
  show ?case
  proof (cases r1)
    case (Some e)
    with Cons.prems d d1 show ?thesis
      unfolding unfold by (auto intro: prefix_prefix)
  next
    case None
    obtain r2 s2 evs2 where rest: "lists_by_dates w dates base_dir s1 = (r2, s2, evs2)"
      by (metis prod_cases3)
    from Cons.prems d None rest have "r = r2" and "evs = evs1 @ evs2" by simp_all
    with Cons.IH [OF rest] d1 None show ?thesis by (simp add: unfold)
  qed
qed

lemma length_sweep_listings: "length (sweep_listings dates) = 8 * length dates"
  by (induction dates) (simp_all add: sweep_listings_def slot_listings_def times_types_def)


text \<open>
  C1, as the script has it: the listing requests of a sweep are those of the (date, slot,
  product type) triples, once each, date-major, then in the order of the slot table
  (00z, 12z, 06z, 18z), then in the order of the slot's type list. A sweep that returns
  has issued all of them, eight per date, whatever the listing requests answered; a sweep
  cut short by an unhandled fault has issued an initial part of that list.
\<close>

theorem sweep_listing_requests:
  "lists_by_dates w dates base_dir s = (r, s', evs) \<Longrightarrow>
     prefix (listing_urls evs) (sweep_listings dates) \<and>
     (r = None \<longrightarrow>
        listing_urls evs = sweep_listings dates \<and> length (listing_urls evs) = 8 * length dates)"
  using lists_by_dates_listing [of w dates base_dir s r s' evs] length_sweep_listings [of dates]
  by simp

theorem sweep_listing_requests_witness:
  "fst (lists_by_dates oper_world [''20240311'', ''20240312''] ''out'' empty_state) = None \<and>
   listing_urls (snd (snd (lists_by_dates oper_world [''20240311'', ''20240312''] ''out'' empty_state))) =
     [''https://data.ecmwf.int/forecasts/20240311/00z/ifs/0p25/oper/'',
      ''https://data.ecmwf.int/forecasts/20240311/00z/ifs/0p25/wave/'',
      ''https://data.ecmwf.int/forecasts/20240311/12z/ifs/0p25/oper/'',
      ''https://data.ecmwf.int/forecasts/20240311/12z/ifs/0p25/wave/'',
      ''https://data.ecmwf.int/forecasts/20240311/06z/ifs/0p25/scda/'',
      ''https://data.ecmwf.int/forecasts/20240311/06z/ifs/0p25/scwv/'',
      ''https://data.ecmwf.int/forecasts/20240311/18z/ifs/0p25/scda/'',
      ''https://data.ecmwf.int/forecasts/20240311/18z/ifs/0p25/scwv/'',
      ''https://data.ecmwf.int/forecasts/20240312/00z/ifs/0p25/oper/'',
      ''https://data.ecmwf.int/forecasts/20240312/00z/ifs/0p25/wave/'',
      ''https://data.ecmwf.int/forecasts/20240312/12z/ifs/0p25/oper/'',
      ''https://data.ecmwf.int/forecasts/20240312/12z/ifs/0p25/wave/'',
      ''https://data.ecmwf.int/forecasts/20240312/06z/ifs/0p25/scda/'',
      ''https://data.ecmwf.int/forecasts/20240312/06z/ifs/0p25/scwv/'',
      ''https://data.ecmwf.int/forecasts/20240312/18z/ifs/0p25/scda/'',
      ''https://data.ecmwf.int/forecasts/20240312/18z/ifs/0p25/scwv/''] \<and>
   length (listing_urls (snd (snd (lists_by_dates oper_world [''20240311'', ''20240312''] ''out'' empty_state)))) = 16"
proof -
  let ?run = "lists_by_dates oper_world [''20240311'', ''20240312''] ''out'' empty_state"
  have ok: "fst ?run = None" by code_simp
  have expected: "sweep_listings [''20240311'', ''20240312''] =
     [''https://data.ecmwf.int/forecasts/20240311/00z/ifs/0p25/oper/'',
      ''https://data.ecmwf.int/forecasts/20240311/00z/ifs/0p25/wave/'',
      ''https://data.ecmwf.int/forecasts/20240311/12z/ifs/0p25/oper/'',
      ''https://data.ecmwf.int/forecasts/20240311/12z/ifs/0p25/wave/'',
      ''https://data.ecmwf.int/forecasts/20240311/06z/ifs/0p25/scda/'',
      ''https://data.ecmwf.int/forecasts/20240311/06z/ifs/0p25/scwv/'',
      ''https://data.ecmwf.int/forecasts/20240311/18z/ifs/0p25/scda/'',
      ''https://data.ecmwf.int/forecasts/20240311/18z/ifs/0p25/scwv/'',
      ''https://data.ecmwf.int/forecasts/20240312/00z/ifs/0p25/oper/'',
      ''https://data.ecmwf.int/forecasts/20240312/00z/ifs/0p25/wave/'',
      ''https://data.ecmwf.int/forecasts/20240312/12z/ifs/0p25/oper/'',
      ''https://data.ecmwf.int/forecasts/20240312/12z/ifs/0p25/wave/'',
      ''https://data.ecmwf.int/forecasts/20240312/06z/ifs/0p25/scda/'',
      ''https://data.ecmwf.int/forecasts/20240312/06z/ifs/0p25/scwv/'',
      ''https://data.ecmwf.int/forecasts/20240312/18z/ifs/0p25/scda/'',
      ''https://data.ecmwf.int/forecasts/20240312/18z/ifs/0p25/scwv/'']"
    by (simp add: sweep_listings_def slot_listings_def times_types_def listing_url_def)
  have "?run = (fst ?run, fst (snd ?run), snd (snd ?run))" by simp
  from sweep_listing_requests [OF this] ok expected show ?thesis by simp
qed

lemma opened_simps [simp]:
  "opened [] = []"
  "opened (xs @ ys) = opened xs @ opened ys"
  "opened (e # es) = (case e of Open p \<Rightarrow> [p] | _ \<Rightarrow> []) @ opened es"
  by (simp_all add: opened_def)

lemma file_urls_simps [simp]:
  "file_urls [] = []"
  "file_urls (xs @ ys) = file_urls xs @ file_urls ys"
  "file_urls (e # es) = (case e of Get u stream \<Rightarrow> if stream then [u] else [] | _ \<Rightarrow> []) @ file_urls es"
  by (simp_all add: file_urls_def)

lemma printed_simps [simp]:
  "printed [] = []"
  "printed (xs @ ys) = printed xs @ printed ys"
  "printed (e # es) = (case e of Print m \<Rightarrow> [m] | _ \<Rightarrow> []) @ printed es"
  by (simp_all add: printed_def)

lemma selected_hrefs_simps [simp]:
  "selected_hrefs [] = []"
  "selected_hrefs (None # ls) = selected_hrefs ls"
  "selected_hrefs (Some h # ls) = (if endswith h ''.grib2'' then h # selected_hrefs ls else selected_hrefs ls)"
  by (simp_all add: selected_hrefs_def)

lemma endswith_nonempty: "endswith h ''.grib2'' \<Longrightarrow> h \<noteq> []"
  by (auto simp: endswith_def)

lemma write_chunks_quiet:
  "write_chunks p cs s = (s', evs) \<Longrightarrow> opened evs = [] \<and> file_urls evs = [] \<and> printed evs = []"
  by (induction cs arbitrary: s s' evs) (auto split: prod.splits)

lemma download_file_file_urls:
  "download_file w url tdir h s = (r, s', evs) \<Longrightarrow> file_urls evs = [url @ os_path_basename h]"
  by (auto simp: download_file_def requests_get_def open_wb_def Let_def
      split: prod.splits option.splits if_splits dest: write_chunks_quiet)

lemma download_file_opened:
  "download_file w url tdir h s = (r, s', evs) \<Longrightarrow>
     (r = None \<longrightarrow> opened evs = [os_path_join tdir [os_path_basename h]] \<and>
                  printed evs = [FileDownloaded (os_path_basename h)]) \<and>
     (r \<noteq> None \<longrightarrow> (opened evs = [] \<or> opened evs = [os_path_join tdir [os_path_basename h]]) \<and>
                  printed evs = [])"
  by (auto simp: download_file_def requests_get_def open_wb_def Let_def
      split: prod.splits option.splits if_splits dest: write_chunks_quiet)

lemma links_loop_file_urls:
  "links_loop w url tdir ls s = (r, s', evs) \<Longrightarrow>
     prefix (file_urls evs) (map (\<lambda>h. url @ os_path_basename h) (selected_hrefs ls)) \<and>
     (r = None \<longrightarrow> file_urls evs = map (\<lambda>h. url @ os_path_basename h) (selected_hrefs ls))"
proof (induction ls arbitrary: s r s' evs)
  case Nil
  then show ?case by simp
next
  case (Cons href rest)
  show ?case
  proof (cases href)
    case None
    with Cons show ?thesis by simp
  next
    case (Some h)
    show ?thesis
    proof (cases "endswith h ''.grib2''")
      case False
      with Some Cons show ?thesis by simp
    next
      case True
      obtain r1 s1 evs1 where d: "download_file w url tdir h s = (r1, s1, evs1)"
        by (metis prod_cases3)
      note d1 = download_file_file_urls [OF d]
      show ?thesis
      proof (cases r1)
        case (Some e)
        with Cons.prems \<open>href = Some h\<close> True d d1 show ?thesis
          by (auto simp: endswith_nonempty)
      next
        case None
        obtain r2 s2 evs2 where rest: "links_loop w url tdir rest s1 = (r2, s2, evs2)"
          by (metis prod_cases3)
        from Cons.prems \<open>href = Some h\<close> True d None rest have "r = r2" and "evs = evs1 @ evs2"
          by (simp_all add: endswith_nonempty)
        with Cons.IH [OF rest] d1 True \<open>href = Some h\<close> show ?thesis by simp
      qed
    qed
  qed
qed

lemma links_loop_opened:
  "links_loop w url tdir ls s = (r, s', evs) \<Longrightarrow>
     prefix (opened evs) (map (\<lambda>h. os_path_join tdir [os_path_basename h]) (selected_hrefs ls)) \<and>
     prefix (printed evs) (map (\<lambda>h. FileDownloaded (os_path_basename h)) (selected_hrefs ls)) \<and>
     (r = None \<longrightarrow>
        opened evs = map (\<lambda>h. os_path_join tdir [os_path_basename h]) (selected_hrefs ls) \<and>
        printed evs = map (\<lambda>h. FileDownloaded (os_path_basename h)) (selected_hrefs ls))"
proof (induction ls arbitrary: s r s' evs)
  case Nil
  then show ?case by simp
next
  case (Cons href rest)
  show ?case
  proof (cases href)
    case None
    with Cons show ?thesis by simp
  next
    case (Some h)
    show ?thesis
    proof (cases "endswith h ''.grib2''")
      case False
      with Some Cons show ?thesis by simp
    next
      case True
      obtain r1 s1 evs1 where d: "download_file w url tdir h s = (r1, s1, evs1)"
        by (metis prod_cases3)
      note d1 = download_file_opened [OF d]
      show ?thesis
      proof (cases r1)
        case (Some e)
        with Cons.prems \<open>href = Some h\<close> True d d1 show ?thesis
          by (auto simp: endswith_nonempty)
      next
        case None
        obtain r2 s2 evs2 where rest: "links_loop w url tdir rest s1 = (r2, s2, evs2)"
          by (metis prod_cases3)
        from Cons.prems \<open>href = Some h\<close> True d None rest have "r = r2" and "evs = evs1 @ evs2"
          by (simp_all add: endswith_nonempty)
        with Cons.IH [OF rest] d1 None True \<open>href = Some h\<close> show ?thesis by simp
      qed
    qed
  qed
qed

lemma basename_final_component:
  "CHR ''/'' \<notin> set (os_path_basename h) \<and>
   (\<exists>pre. h = pre @ os_path_basename h \<and> (pre = [] \<or> last pre = CHR ''/''))"
proof -
  let ?P = "\<lambda>c. c \<noteq> CHR ''/''"
  let ?pre = "rev (dropWhile ?P (rev h))"
  have "h = rev (takeWhile ?P (rev h) @ dropWhile ?P (rev h))"
    by (simp only: takeWhile_dropWhile_id rev_rev_ident)
  then have split: "h = ?pre @ os_path_basename h"
    by (simp only: rev_append os_path_basename_def)
  have "?pre = [] \<or> last ?pre = CHR ''/''"
  proof (cases "dropWhile ?P (rev h)")
    case Nil
    then show ?thesis by simp
  next
    case (Cons c cs)
    then have "\<not> ?P c" using hd_dropWhile [of ?P "rev h"] by auto
    with Cons show ?thesis by (simp add: last_rev)
  qed
  moreover have "CHR ''/'' \<notin> set (os_path_basename h)"
    using set_takeWhileD [of "CHR ''/''" ?P "rev h"] by (auto simp: os_path_basename_def)
  ultimately show ?thesis using split by blast
qed

lemma basename_drops_directories:
  "CHR ''/'' \<notin> set name \<Longrightarrow> os_path_basename (dir @ ''/'' @ name) = name"
proof -
  assume "CHR ''/'' \<notin> set name"
  then have "takeWhile (\<lambda>c. c \<noteq> CHR ''/'') (rev name) = rev name"
    by (auto simp: takeWhile_eq_all_conv)
  moreover have "rev (dir @ ''/'' @ name) = rev name @ CHR ''/'' # rev dir" by simp
  moreover have "takeWhile (\<lambda>c. c \<noteq> CHR ''/'') (rev name @ CHR ''/'' # rev dir) =
      takeWhile (\<lambda>c. c \<noteq> CHR ''/'') (rev name)"
    by (rule takeWhile_tail) simp
  ultimately show ?thesis
    by (simp only: os_path_basename_def rev_rev_ident)
qed


text \<open>
  C6: the download URL of a matched anchor is the listing URL followed directly by the
  final path component of the \<open>href\<close>. It is the plain concatenation of two strings:
  whatever directories, host or scheme the \<open>href\<close> carries before its last \<open>/\<close> has no
  effect on it.
\<close>

theorem file_url_is_concatenation:
  "links_loop w url tdir ls s = (r, s', evs) \<Longrightarrow>
     prefix (file_urls evs) (map (\<lambda>h. url @ os_path_basename h) (selected_hrefs ls)) \<and>
     (r = None \<longrightarrow> file_urls evs = map (\<lambda>h. url @ os_path_basename h) (selected_hrefs ls)) \<and>
     (\<forall>dir name. CHR ''/'' \<notin> set name \<longrightarrow> url @ os_path_basename (dir @ ''/'' @ name) = url @ name)"
  using links_loop_file_urls [of w url tdir ls s r s' evs] basename_drops_directories
  by simp

theorem file_url_is_concatenation_witness:
  "fst (links_loop oper_world ''https://h/d/'' ''out''
          [Some ''https://other.host/deep/x.grib2'', Some ''../y.grib2''] out_state) = None \<and>
   file_urls (snd (snd (links_loop oper_world ''https://h/d/'' ''out''
          [Some ''https://other.host/deep/x.grib2'', Some ''../y.grib2''] out_state))) =
     [''https://h/d/x.grib2'', ''https://h/d/y.grib2''] \<and>
   CHR ''/'' \<notin> set ''x.grib2'' \<and>
   ''https://h/d/'' @ os_path_basename (''https://other.host/deep'' @ ''/'' @ ''x.grib2'') =
     ''https://h/d/'' @ ''x.grib2''"
proof -
  let ?ls = "[Some ''https://other.host/deep/x.grib2'', Some ''../y.grib2'']"
  let ?run = "links_loop oper_world ''https://h/d/'' ''out'' ?ls out_state"
  have ok: "fst ?run = None" by code_simp
  have urls: "map (\<lambda>h. ''https://h/d/'' @ os_path_basename h) (selected_hrefs ?ls) =
      [''https://h/d/x.grib2'', ''https://h/d/y.grib2'']" by code_simp
  have name: "CHR ''/'' \<notin> set ''x.grib2''" by simp
  have "?run = (fst ?run, fst (snd ?run), snd (snd ?run))" by simp
  note th = file_url_is_concatenation [OF this]
  from th ok have "file_urls (snd (snd ?run)) =
      map (\<lambda>h. ''https://h/d/'' @ os_path_basename h) (selected_hrefs ?ls)" by blast
  with urls have u: "file_urls (snd (snd ?run)) = [''https://h/d/x.grib2'', ''https://h/d/y.grib2'']"
    by (simp only:)
  from th name have b: "''https://h/d/'' @ os_path_basename (''https://other.host/deep'' @ ''/'' @ ''x.grib2'') =
      ''https://h/d/'' @ ''x.grib2''" by blast
  show ?thesis by (intro conjI) (fact ok, fact u, fact name, fact b)
qed

lemma completions_simps [simp]:
  "completions [] = 0"
  "completions (xs @ ys) = completions xs + completions ys"
  "completions (e # es) =
     (case e of Print (AllDownloaded d t) \<Rightarrow> 1 | _ \<Rightarrow> 0) + completions es"
  by (simp_all add: completions_def split: event.splits message.splits)

lemma failures_simps [simp]:
  "failures [] = 0"
  "failures (xs @ ys) = failures xs + failures ys"
  "failures (e # es) =
     (case e of Print (FailedToAccess u) \<Rightarrow> 1 | _ \<Rightarrow> 0) + failures es"
  by (simp_all add: failures_def split: event.splits message.splits)

lemma links_loop_no_slot_message:
  "links_loop w url tdir ls s = (None, s', evs) \<Longrightarrow> completions evs = 0 \<and> failures evs = 0"
  using links_loop_opened [of w url tdir ls s None s' evs]
  by (simp add: completions_def failures_def filter_empty_conv)

lemma types_loop_slot_messages:
  "types_loop w tmpl date time tdir types s = (None, s', evs) \<Longrightarrow>
     completions evs + failures evs = length types"
proof (induction types arbitrary: s s' evs)
  case Nil
  then show ?case by simp
next
  case (Cons t types)
  from Cons.prems obtain url where url: "format_url tmpl date time t = Inr url"
    by (cases "format_url tmpl date time t") auto
  from Cons.prems url obtain resp where resp: "w (requests s) url = Some resp"
    by (cases "w (requests s) url") (auto simp: requests_get_def)
  let ?s1 = "s\<lparr>requests := Suc (requests s)\<rparr>"
  show ?case
  proof (cases "status_code resp = 200")
    case False
    obtain r3 s3 evs3 where rest: "types_loop w tmpl date time tdir types ?s1 = (r3, s3, evs3)"
      by (metis prod_cases3)
    from Cons.prems url resp False rest
    have "r3 = None" and "evs = [Get url False] @ [Print (FailedToAccess url)] @ evs3"
      by (simp_all add: requests_get_def)
    with Cons.IH [of ?s1 s3 evs3] rest show ?thesis by simp
  next
    case True
    obtain r2 s2 evs2 where ll: "links_loop w url tdir (links resp) ?s1 = (r2, s2, evs2)"
      by (metis prod_cases3)
    from Cons.prems url resp True ll have r2: "r2 = None"
      by (cases r2) (simp_all add: requests_get_def)
    obtain r3 s3 evs3 where rest: "types_loop w tmpl date time tdir types s2 = (r3, s3, evs3)"
      by (metis prod_cases3)
    from Cons.prems url resp True ll r2 rest
    have "r3 = None" and "evs = [Get url False] @ evs2 @ [Print (AllDownloaded date time)] @ evs3"
      by (simp_all add: requests_get_def)
    with Cons.IH [of s2 s3 evs3] rest links_loop_no_slot_message [of w url tdir "links resp" ?s1 s2 evs2] ll r2
    show ?thesis by simp
  qed
qed

text \<open>
  C5: when the listing request of a product type is answered with a status other than
  200, the iteration for that type consists of the request and one printed line,
  \<open>Failed to access\<close> followed by the URL: no file is requested, opened or written, the
  file system is unchanged, nothing is raised, and the loop goes on with the next product
  type (and returns normally when there is none).
\<close>

theorem non_200_listing_is_skipped:
  assumes "format_url tmpl date time t = Inr url"
    and "w (requests s) url = Some resp"
    and "status_code resp \<noteq> 200"
    and "types_loop w tmpl date time tdir types (s\<lparr>requests := Suc (requests s)\<rparr>) = (r, s', evs)"
  shows "types_loop w tmpl date time tdir (t # types) s =
           (r, s', [Get url False, Print (FailedToAccess url)] @ evs) \<and>
         types_loop w tmpl date time tdir [t] s =
           (None, s\<lparr>requests := Suc (requests s)\<rparr>, [Get url False, Print (FailedToAccess url)]) \<and>
         text_of (FailedToAccess url) = ''Failed to access '' @ url"
  using assms by (simp add: requests_get_def)



theorem non_200_listing_is_skipped_witness:
  "oper_world (requests out_state) ''https://data.ecmwf.int/forecasts/20240311/00z/ifs/0p25/wave/'' =
     Some \<lparr>status_code = 404, links = [], iter_content = [], stream_fails = False\<rparr> \<and>
   fst (types_loop oper_world url_template ''20240311'' ''00z'' ''out'' [''wave'', ''oper''] out_state) = None \<and>
   snd (snd (types_loop oper_world url_template ''20240311'' ''00z'' ''out'' [''wave'', ''oper''] out_state)) =
     [Get ''https://data.ecmwf.int/forecasts/20240311/00z/ifs/0p25/wave/'' False,
      Print (FailedToAccess ''https://data.ecmwf.int/forecasts/20240311/00z/ifs/0p25/wave/''),
      Get ''https://data.ecmwf.int/forecasts/20240311/00z/ifs/0p25/oper/'' False,
      Get ''https://data.ecmwf.int/forecasts/20240311/00z/ifs/0p25/oper/a.grib2'' True,
      Open ''out/a.grib2'', Write ''out/a.grib2'' ''GR'', Write ''out/a.grib2'' ''IB'',
      Print (FileDownloaded ''a.grib2''),
      Get ''https://data.ecmwf.int/forecasts/20240311/00z/ifs/0p25/oper/c.grib2'' True,
      Open ''out/c.grib2'', Write ''out/c.grib2'' ''GR'', Write ''out/c.grib2'' ''IB'',
      Print (FileDownloaded ''c.grib2''),
      Print (AllDownloaded ''20240311'' ''00z'')]"
proof -
  let ?U = "''https://data.ecmwf.int/forecasts/20240311/00z/ifs/0p25/wave/''"
  let ?R = "\<lparr>status_code = 404, links = [], iter_content = [], stream_fails = False\<rparr>"
  let ?rest = "types_loop oper_world url_template ''20240311'' ''00z'' ''out'' [''oper'']
                 (out_state\<lparr>requests := Suc (requests out_state)\<rparr>)"
  have f: "format_url url_template ''20240311'' ''00z'' ''wave'' = Inr ?U"
    by (simp add: format_url_template listing_url_def)
  have a: "oper_world (requests out_state) ?U = Some ?R" by code_simp
  have st: "status_code ?R \<noteq> 200" by simp
  have rest: "?rest = (fst ?rest, fst (snd ?rest), snd (snd ?rest))" by simp
  note eq = non_200_listing_is_skipped [OF f a st rest, THEN conjunct1]
  have r1: "fst ?rest = None" by code_simp
  have r2: "snd (snd ?rest) =
     [Get ''https://data.ecmwf.int/forecasts/20240311/00z/ifs/0p25/oper/'' False,
      Get ''https://data.ecmwf.int/forecasts/20240311/00z/ifs/0p25/oper/a.grib2'' True,
      Open ''out/a.grib2'', Write ''out/a.grib2'' ''GR'', Write ''out/a.grib2'' ''IB'',
      Print (FileDownloaded ''a.grib2''),
      Get ''https://data.ecmwf.int/forecasts/20240311/00z/ifs/0p25/oper/c.grib2'' True,
      Open ''out/c.grib2'', Write ''out/c.grib2'' ''GR'', Write ''out/c.grib2'' ''IB'',
      Print (FileDownloaded ''c.grib2''),
      Print (AllDownloaded ''20240311'' ''00z'')]" by code_simp
  have b: "fst (types_loop oper_world url_template ''20240311'' ''00z'' ''out'' [''wave'', ''oper''] out_state) = None"
    unfolding eq by (simp only: fst_conv r1)
  have c: "snd (snd (types_loop oper_world url_template ''20240311'' ''00z'' ''out'' [''wave'', ''oper''] out_state)) =
     [Get ?U False, Print (FailedToAccess ?U)] @ snd (snd ?rest)"
    unfolding eq by (simp only: snd_conv)
  show ?thesis
    by (intro conjI) (fact a, fact b, simp only: c r2 append.simps)
qed

lemma write_chunks_content:
  "fs s p = Some (File c) \<Longrightarrow>
     write_chunks p cs s = (s\<lparr>fs := (fs s)(p \<mapsto> File (c @ concat cs))\<rparr>, map (Write p) cs)"
proof (induction cs arbitrary: s c)
  case Nil
  then have "(fs s)(p \<mapsto> File c) = fs s" by (simp add: fun_upd_idem)
  then show ?case by simp
next
  case (Cons chunk cs)
  let ?s = "s\<lparr>fs := (fs s)(p \<mapsto> File (content (fs s) p @ chunk))\<rparr>"
  have "fs ?s p = Some (File (c @ chunk))" using Cons.prems by (simp add: content_def)
  from Cons.IH [OF this] have "write_chunks p cs ?s =
      (?s\<lparr>fs := (fs ?s)(p \<mapsto> File ((c @ chunk) @ concat cs))\<rparr>, map (Write p) cs)" .
  moreover have "?s\<lparr>fs := (fs ?s)(p \<mapsto> File ((c @ chunk) @ concat cs))\<rparr> =
      s\<lparr>fs := (fs s)(p \<mapsto> File (c @ concat (chunk # cs)))\<rparr>"
    by (simp del: fun_upd_apply)
  ultimately show ?case by (simp del: fun_upd_apply)
qed

text \<open>
  C7: downloading a file whose name already exists in the target directory, with whatever
  content \<open>old\<close> an earlier download left there, succeeds without an error and leaves
  under that name exactly the body of the new response: the file is opened for writing,
  which truncates it, and the chunks are appended in order. No other path of the file
  system changes: no second file, no renaming.
\<close>

theorem download_overwrites_existing_file:
  assumes "fs s (os_path_join tdir [os_path_basename h]) = Some (File old)"
    and "parent_is_dir (fs s) (os_path_join tdir [os_path_basename h])"
    and "w (requests s) (url @ os_path_basename h) = Some resp"
    and "\<not> stream_fails resp"
  shows "download_file w url tdir h s =
           (None,
            s\<lparr>fs := (fs s)(os_path_join tdir [os_path_basename h] \<mapsto> File (concat (iter_content resp))),
              requests := Suc (requests s)\<rparr>,
            [Get (url @ os_path_basename h) True, Open (os_path_join tdir [os_path_basename h])] @
            map (Write (os_path_join tdir [os_path_basename h])) (iter_content resp) @
            [Print (FileDownloaded (os_path_basename h))])"
proof -
  let ?p = "os_path_join tdir [os_path_basename h]"
  let ?s1 = "s\<lparr>requests := Suc (requests s)\<rparr>"
  let ?s2 = "?s1\<lparr>fs := (fs ?s1)(?p \<mapsto> File [])\<rparr>"
  have op: "open_wb ?p ?s1 = (None, ?s2, [Open ?p])"
    using assms(1,2) by (simp add: open_wb_def)
  have "fs ?s2 ?p = Some (File [])" by simp
  from write_chunks_content [OF this, of "iter_content resp"]
  have wr: "write_chunks ?p (iter_content resp) ?s2 =
      (?s2\<lparr>fs := (fs ?s2)(?p \<mapsto> File (concat (iter_content resp)))\<rparr>, map (Write ?p) (iter_content resp))"
    by simp
  show ?thesis
    using assms(3,4) op wr by (simp add: download_file_def requests_get_def Let_def)
qed

theorem download_overwrites_existing_file_witness:
  "fs (fst (snd (download_file changing_world ''https://h/oper/'' ''out'' ''x.grib2'' out_state)))
      ''out/x.grib2'' = Some (File ''first body'') \<and>
   fst (download_file changing_world ''https://h/wave/'' ''out'' ''/deep/x.grib2''
          (fst (snd (download_file changing_world ''https://h/oper/'' ''out'' ''x.grib2'' out_state)))) = None \<and>
   fs (fst (snd (download_file changing_world ''https://h/wave/'' ''out'' ''/deep/x.grib2''
          (fst (snd (download_file changing_world ''https://h/oper/'' ''out'' ''x.grib2'' out_state))))))
      ''out/x.grib2'' = Some (File ''2nd'')"
proof -
  let ?s1 = "fst (snd (download_file changing_world ''https://h/oper/'' ''out'' ''x.grib2'' out_state))"
  let ?R = "\<lparr>status_code = 200, links = [], iter_content = [''2nd''], stream_fails = False\<rparr>"
  have p: "os_path_join ''out'' [os_path_basename ''/deep/x.grib2''] = ''out/x.grib2''" by code_simp
  have u: "''https://h/wave/'' @ os_path_basename ''/deep/x.grib2'' = ''https://h/wave/x.grib2''" by code_simp
  have a: "fs ?s1 (os_path_join ''out'' [os_path_basename ''/deep/x.grib2'']) = Some (File ''first body'')"
    by code_simp
  have b: "parent_is_dir (fs ?s1) (os_path_join ''out'' [os_path_basename ''/deep/x.grib2''])"
    by code_simp
  have c: "changing_world (requests ?s1) (''https://h/wave/'' @ os_path_basename ''/deep/x.grib2'') = Some ?R"
    by code_simp
  have d: "\<not> stream_fails ?R" by simp
  note eq = download_overwrites_existing_file
    [where s = ?s1 and tdir = "''out''" and h = "''/deep/x.grib2''" and old = "''first body''"
       and w = changing_world and url = "''https://h/wave/''" and resp = ?R, OF a b c d]
  have first: "fs ?s1 ''out/x.grib2'' = Some (File ''first body'')" using a by (simp only: p)
  have ok: "fst (download_file changing_world ''https://h/wave/'' ''out'' ''/deep/x.grib2'' ?s1) = None"
    unfolding eq by (simp only: fst_conv)
  have snd: "fs (fst (snd (download_file changing_world ''https://h/wave/'' ''out'' ''/deep/x.grib2'' ?s1)))
      ''out/x.grib2'' = Some (File ''2nd'')"
    unfolding eq p by (simp del: fun_upd_apply add: fun_upd_same)
  show ?thesis by (intro conjI) (fact first, fact ok, fact snd)
qed

lemma touched_simps [simp]:
  "touched [] = []"
  "touched (xs @ ys) = touched xs @ touched ys"
  "touched (e # es) = (case e of Open p \<Rightarrow> [p] | Write p c \<Rightarrow> [p] | _ \<Rightarrow> []) @ touched es"
  by (simp_all add: touched_def)

lemma created_before_writes_ready: "created_before_writes d True evs"
proof (induction evs)
  case Nil
  then show ?case by simp
next
  case (Cons e evs)
  then show ?case by (cases e) simp_all
qed

lemma created_before_writes_untouched:
  "touched evs = [] \<Longrightarrow> created_before_writes d ready evs"
proof (induction evs arbitrary: ready)
  case Nil
  then show ?case by simp
next
  case (Cons e evs)
  then show ?case by (cases e) simp_all
qed

subsection \<open>Paths inside the target directory\<close>

lemma join2_last:
  "time \<noteq> [] \<Longrightarrow> last time \<noteq> CHR ''/'' \<Longrightarrow> join2 p time \<noteq> [] \<and> last (join2 p time) \<noteq> CHR ''/''"
  by (simp add: join2_def)

lemma target_dir_last:
  "time \<noteq> [] \<Longrightarrow> last time \<noteq> CHR ''/'' \<Longrightarrow>
     target_dir base_dir date time \<noteq> [] \<and> last (target_dir base_dir date time) \<noteq> CHR ''/''"
  by (simp add: target_dir_def os_path_join_def join2_last)

lemma join_name:
  assumes "tdir \<noteq> []" "last tdir \<noteq> CHR ''/''" "CHR ''/'' \<notin> set name"
  shows "os_path_join tdir [name] = tdir @ ''/'' @ name"
proof -
  have "\<not> startswith name ''/''" using assms(3) by (cases name) (auto simp: startswith_def)
  moreover have "\<not> endswith tdir ''/''"
  proof
    assume "endswith tdir ''/''"
    then have "drop (length tdir - 1) tdir = ''/''" by (simp add: endswith_def)
    moreover have "drop (length tdir - 1) tdir = [last tdir]"
      using assms(1) by (metis append_butlast_last_id append_eq_conv_conj length_butlast)
    ultimately show False using assms(2) by simp
  qed
  ultimately show ?thesis using assms(1) by (simp add: os_path_join_def join2_def)
qed

lemma dirname_join:
  assumes "tdir \<noteq> []" "last tdir \<noteq> CHR ''/''" "CHR ''/'' \<notin> set name"
  shows "os_path_dirname (os_path_join tdir [name]) = tdir"
proof -
  have j: "os_path_join tdir [name] = tdir @ ''/'' @ name" using assms by (rule join_name)
  have b: "os_path_basename (tdir @ ''/'' @ name) = name"
    using assms(3) by (rule basename_drops_directories)
  have head: "take (length (tdir @ ''/'' @ name) - length name) (tdir @ ''/'' @ name) = tdir @ ''/''"
    by simp
  have notall: "\<not> list_all (\<lambda>c. c = CHR ''/'') (tdir @ ''/'')"
  proof
    assume "list_all (\<lambda>c. c = CHR ''/'') (tdir @ ''/'')"
    then have "\<forall>c\<in>set tdir. c = CHR ''/''" by (simp add: list_all_iff)
    moreover have "last tdir \<in> set tdir" using assms(1) by simp
    ultimately show False using assms(2) by blast
  qed
  have strip: "rstrip_sep (tdir @ ''/'') = tdir"
  proof (cases tdir rule: rev_cases)
    case Nil
    with assms(1) show ?thesis by simp
  next
    case (snoc ys y)
    with assms(2) show ?thesis by (simp add: rstrip_sep_def)
  qed
  show ?thesis
    unfolding j os_path_dirname_def b Let_def head using notall strip by simp
qed


lemma download_file_cases:
  assumes "download_file w url tdir h s = (r, s', evs)"
  shows "(s' = s\<lparr>requests := Suc (requests s)\<rparr> \<and> evs = [Get (url @ os_path_basename h) True] \<and>
            r \<in> {Some RequestException, Some IsADirectoryError, Some NotADirectoryError, Some FileNotFoundError} \<and>
            (parent_is_dir (fs s) (os_path_join tdir [os_path_basename h]) \<longrightarrow>
               r = Some RequestException \<or> fs s (os_path_join tdir [os_path_basename h]) = Some Dir)) \<or>
         (\<exists>resp::response. fs s (os_path_join tdir [os_path_basename h]) \<noteq> Some Dir \<and>
            parent_is_dir (fs s) (os_path_join tdir [os_path_basename h]) \<and>
            s' = s\<lparr>fs := (fs s)(os_path_join tdir [os_path_basename h] \<mapsto> File (concat (iter_content resp))),
                   requests := Suc (requests s)\<rparr> \<and>
            evs = [Get (url @ os_path_basename h) True, Open (os_path_join tdir [os_path_basename h])] @
                  map (Write (os_path_join tdir [os_path_basename h])) (iter_content resp) @
                  (if stream_fails resp then [] else [Print (FileDownloaded (os_path_basename h))]) \<and>
            r = (if stream_fails resp then Some RequestException else None))"
proof -
  let ?p = "os_path_join tdir [os_path_basename h]"
  let ?s1 = "s\<lparr>requests := Suc (requests s)\<rparr>"
  show ?thesis
  proof (cases "w (requests s) (url @ os_path_basename h)")
    case None
    with assms show ?thesis by (auto simp: download_file_def requests_get_def Let_def)
  next
    case (Some resp)
    show ?thesis
    proof (cases "fs s ?p \<noteq> Some Dir \<and> parent_is_dir (fs s) ?p")
      case False
      with assms Some show ?thesis
        by (auto simp: download_file_def requests_get_def open_wb_def Let_def split: if_splits)
    next
      case True
      let ?s2 = "?s1\<lparr>fs := (fs ?s1)(?p \<mapsto> File [])\<rparr>"
      have op: "open_wb ?p ?s1 = (None, ?s2, [Open ?p])"
        using True by (simp add: open_wb_def)
      have "fs ?s2 ?p = Some (File [])" by simp
      from write_chunks_content [OF this, of "iter_content resp"]
      have wr: "write_chunks ?p (iter_content resp) ?s2 =
          (?s2\<lparr>fs := (fs ?s2)(?p \<mapsto> File (concat (iter_content resp)))\<rparr>, map (Write ?p) (iter_content resp))"
        by simp
      from assms Some op wr
      have "s' = s\<lparr>fs := (fs s)(?p \<mapsto> File (concat (iter_content resp))), requests := Suc (requests s)\<rparr>"
        and "evs = [Get (url @ os_path_basename h) True, Open ?p] @ map (Write ?p) (iter_content resp) @
                  (if stream_fails resp then [] else [Print (FileDownloaded (os_path_basename h))])"
        and "r = (if stream_fails resp then Some RequestException else None)"
        by (auto simp: download_file_def requests_get_def Let_def split: if_splits)
      with True show ?thesis
        by (intro disjI2 exI [of _ resp]) simp
    qed
  qed
qed

lemma download_file_frame:
  assumes "download_file w url tdir h s = (r, s', evs)"
  shows "r \<noteq> Some FileExistsError \<and> (\<forall>p. Makedirs p \<notin> set evs) \<and>
         (\<forall>q. fs s q = Some Dir \<longrightarrow> fs s' q = Some Dir) \<and>
         (\<forall>q. fs s q \<noteq> None \<longrightarrow> fs s' q \<noteq> None)"
  using download_file_cases [OF assms] by (auto split: if_splits)

lemma links_loop_frame:
  "links_loop w url tdir ls s = (r, s', evs) \<Longrightarrow>
     r \<noteq> Some FileExistsError \<and> (\<forall>p. Makedirs p \<notin> set evs) \<and>
     (\<forall>q. fs s q = Some Dir \<longrightarrow> fs s' q = Some Dir) \<and>
     (\<forall>q. fs s q \<noteq> None \<longrightarrow> fs s' q \<noteq> None)"
proof (induction ls arbitrary: s r s' evs)
  case Nil
  then show ?case by simp
next
  case (Cons href rest)
  show ?case
  proof (cases "\<exists>h. href = Some h \<and> h \<noteq> [] \<and> endswith h ''.grib2''")
    case False
    with Cons.prems have "links_loop w url tdir rest s = (r, s', evs)"
      by (auto split: option.splits if_splits)
    then show ?thesis by (rule Cons.IH)
  next
    case True
    then obtain h where h: "href = Some h" "h \<noteq> []" "endswith h ''.grib2''" by blast
    obtain r1 s1 evs1 where d: "download_file w url tdir h s = (r1, s1, evs1)"
      by (metis prod_cases3)
    note d1 = download_file_frame [OF d]
    show ?thesis
    proof (cases r1)
      case (Some e)
      with Cons.prems h d have "r = r1" "s' = s1" "evs = evs1" by simp_all
      with d1 show ?thesis by simp
    next
      case None
      obtain r2 s2 evs2 where rest: "links_loop w url tdir rest s1 = (r2, s2, evs2)"
        by (metis prod_cases3)
      from Cons.prems h d None rest have "r = r2" "s' = s2" "evs = evs1 @ evs2" by simp_all
      with Cons.IH [OF rest] d1 show ?thesis by auto
    qed
  qed
qed

lemma map_sum_id_Inl: "map_sum id g x = Inl e \<longleftrightarrow> x = Inl e"
  by (cases x) auto

lemma format_from_error: "format_from kw st cs = Inl e \<Longrightarrow> e = FormatError"
proof (induction kw st cs rule: format_from.induct)
  case (1 kw)
  then show ?case by simp
next
  case (2 kw name)
  then show ?case by simp
next
  case (3 kw c cs)
  then show ?case
    by (auto split: if_splits list.splits simp: map_sum_id_Inl)
next
  case (4 kw name c cs)
  then show ?case
    by (auto split: if_splits option.splits simp: map_sum_id_Inl)
qed

lemma format_url_error: "format_url tmpl date time t = Inl e \<Longrightarrow> e = FormatError"
  unfolding format_url_def str_format_def by (rule format_from_error)

lemma types_loop_frame:
  "types_loop w tmpl date time tdir types s = (r, s', evs) \<Longrightarrow>
     r \<noteq> Some FileExistsError \<and> (\<forall>p. Makedirs p \<notin> set evs) \<and>
     (\<forall>q. fs s q = Some Dir \<longrightarrow> fs s' q = Some Dir) \<and>
     (\<forall>q. fs s q \<noteq> None \<longrightarrow> fs s' q \<noteq> None)"
proof (induction types arbitrary: s r s' evs)
  case Nil
  then show ?case by simp
next
  case (Cons t types)
  show ?case
  proof (cases "format_url tmpl date time t")
    case (Inl e)
    with Cons.prems format_url_error [of tmpl date time t e] show ?thesis by auto
  next
    case (Inr url)
    let ?s1 = "s\<lparr>requests := Suc (requests s)\<rparr>"
    show ?thesis
    proof (cases "w (requests s) url")
      case None
      with Cons.prems Inr show ?thesis by (auto simp: requests_get_def)
    next
      case (Some resp)
      show ?thesis
      proof (cases "status_code resp = 200")
        case False
        obtain r3 s3 evs3 where rest: "types_loop w tmpl date time tdir types ?s1 = (r3, s3, evs3)"
          by (metis prod_cases3)
        from Cons.prems Inr Some False rest
        have "r = r3" "s' = s3" "evs = [Get url False] @ [Print (FailedToAccess url)] @ evs3"
          by (simp_all add: requests_get_def)
        with Cons.IH [OF rest] show ?thesis by auto
      next
        case True
        obtain r2 s2 evs2 where ll: "links_loop w url tdir (links resp) ?s1 = (r2, s2, evs2)"
          by (metis prod_cases3)
        note l1 = links_loop_frame [OF ll]
        show ?thesis
        proof (cases r2)
          case (Some e)
          with Cons.prems Inr \<open>w (requests s) url = Some resp\<close> True ll
          have "r = r2" "s' = s2" "evs = [Get url False] @ evs2"
            by (simp_all add: requests_get_def)
          with l1 show ?thesis by auto
        next
          case None
          obtain r3 s3 evs3 where rest: "types_loop w tmpl date time tdir types s2 = (r3, s3, evs3)"
            by (metis prod_cases3)
          from Cons.prems Inr \<open>w (requests s) url = Some resp\<close> True ll None rest
          have "r = r3" "s' = s3" "evs = [Get url False] @ evs2 @ [Print (AllDownloaded date time)] @ evs3"
            by (simp_all add: requests_get_def)
          with Cons.IH [OF rest] l1 show ?thesis by auto
        qed
      qed
    qed
  qed
qed


lemma parent_of_file_in_dir:
  assumes "tdir \<noteq> []" "last tdir \<noteq> CHR ''/''"
  shows "parent_is_dir f (os_path_join tdir [os_path_basename h]) \<longleftrightarrow> f tdir = Some Dir"
proof -
  have "CHR ''/'' \<notin> set (os_path_basename h)" using basename_final_component by blast
  with assms have d: "os_path_dirname (os_path_join tdir [os_path_basename h]) = tdir"
    by (rule dirname_join)
  have "\<not> list_all (\<lambda>c. c = CHR ''/'') tdir"
  proof
    assume "list_all (\<lambda>c. c = CHR ''/'') tdir"
    then have "\<forall>c\<in>set tdir. c = CHR ''/''" by (simp add: list_all_iff)
    moreover have "last tdir \<in> set tdir" using assms(1) by simp
    ultimately show False using assms(2) by blast
  qed
  with assms(1) d show ?thesis by (simp add: parent_is_dir_def Let_def)
qed

lemma download_file_blocked:
  assumes "download_file w url tdir h s = (r, s', evs)"
    and "fs s tdir = Some (File c)" "tdir \<noteq> []" "last tdir \<noteq> CHR ''/''"
  shows "r \<noteq> None \<and> fs s' = fs s \<and> touched evs = []"
proof -
  have "\<not> parent_is_dir (fs s) (os_path_join tdir [os_path_basename h])"
    using assms(2-4) by (simp add: parent_of_file_in_dir)
  with download_file_cases [OF assms(1)] show ?thesis by auto
qed

lemma links_loop_blocked:
  "links_loop w url tdir ls s = (r, s', evs) \<Longrightarrow> fs s tdir = Some (File c) \<Longrightarrow>
     tdir \<noteq> [] \<Longrightarrow> last tdir \<noteq> CHR ''/'' \<Longrightarrow> fs s' = fs s \<and> touched evs = []"
proof (induction ls arbitrary: s r s' evs)
  case Nil
  then show ?case by simp
next
  case (Cons href rest)
  show ?case
  proof (cases "\<exists>h. href = Some h \<and> h \<noteq> [] \<and> endswith h ''.grib2''")
    case False
    with Cons.prems have "links_loop w url tdir rest s = (r, s', evs)"
      by (auto split: option.splits if_splits)
    with Cons.prems Cons.IH show ?thesis by blast
  next
    case True
    then obtain h where h: "href = Some h" "h \<noteq> []" "endswith h ''.grib2''" by blast
    obtain r1 s1 evs1 where d: "download_file w url tdir h s = (r1, s1, evs1)"
      by (metis prod_cases3)
    from download_file_blocked [OF d Cons.prems(2-4)]
    have d1: "r1 \<noteq> None" "fs s1 = fs s" "touched evs1 = []" by simp_all
    from d1(1) obtain e where "r1 = Some e" by auto
    with Cons.prems(1) h d have "s' = s1" "evs = evs1" by simp_all
    with d1 show ?thesis by simp
  qed
qed

lemma types_loop_blocked:
  "types_loop w tmpl date time tdir types s = (r, s', evs) \<Longrightarrow> fs s tdir = Some (File c) \<Longrightarrow>
     tdir \<noteq> [] \<Longrightarrow> last tdir \<noteq> CHR ''/'' \<Longrightarrow> fs s' = fs s \<and> touched evs = []"
proof (induction types arbitrary: s r s' evs)
  case Nil
  then show ?case by simp
next
  case (Cons t types)
  show ?case
  proof (cases "format_url tmpl date time t")
    case (Inl e)
    with Cons.prems show ?thesis by auto
  next
    case (Inr url)
    let ?s1 = "s\<lparr>requests := Suc (requests s)\<rparr>"
    have f1: "fs ?s1 tdir = Some (File c)" using Cons.prems(2) by simp
    show ?thesis
    proof (cases "w (requests s) url")
      case None
      with Cons.prems Inr show ?thesis by (auto simp: requests_get_def)
    next
      case (Some resp)
      show ?thesis
      proof (cases "status_code resp = 200")
        case False
        obtain r3 s3 evs3 where rest: "types_loop w tmpl date time tdir types ?s1 = (r3, s3, evs3)"
          by (metis prod_cases3)
        from Cons.prems(1) Inr Some False rest
        have "s' = s3" "evs = [Get url False] @ [Print (FailedToAccess url)] @ evs3"
          by (simp_all add: requests_get_def)
        with Cons.IH [OF rest f1 Cons.prems(3,4)] show ?thesis by simp
      next
        case True
        obtain r2 s2 evs2 where ll: "links_loop w url tdir (links resp) ?s1 = (r2, s2, evs2)"
          by (metis prod_cases3)
        from links_loop_blocked [OF ll f1 Cons.prems(3,4)]
        have l1: "fs s2 = fs s" "touched evs2 = []" by simp_all
        show ?thesis
        proof (cases r2)
          case (Some e)
          with Cons.prems(1) Inr \<open>w (requests s) url = Some resp\<close> True ll
          have "s' = s2" "evs = [Get url False] @ evs2"
            by (simp_all add: requests_get_def)
          with l1 show ?thesis by simp
        next
          case None
          obtain r3 s3 evs3 where rest: "types_loop w tmpl date time tdir types s2 = (r3, s3, evs3)"
            by (metis prod_cases3)
          from Cons.prems(1) Inr \<open>w (requests s) url = Some resp\<close> True ll None rest
          have "s' = s3" "evs = [Get url False] @ evs2 @ [Print (AllDownloaded date time)] @ evs3"
            by (simp_all add: requests_get_def)
          moreover have "fs s2 tdir = Some (File c)" using l1(1) Cons.prems(2) by simp
          note Cons.IH [OF rest this Cons.prems(3,4)]
          ultimately show ?thesis using l1 by simp
        qed
      qed
    qed
  qed
qed

lemma links_loop_nothing:
  "selected_hrefs ls = [] \<Longrightarrow> links_loop w url tdir ls s = (None, s, [])"
proof (induction ls)
  case Nil
  then show ?case by simp
next
  case (Cons href rest)
  then show ?case by (cases href) (auto split: if_splits)
qed

lemma types_loop_nothing:
  "nothing_to_download w \<Longrightarrow> types_loop w tmpl date time tdir types s = (r, s', evs) \<Longrightarrow>
     fs s' = fs s \<and> file_urls evs = [] \<and> touched evs = [] \<and>
     (tmpl = url_template \<longrightarrow> r = None \<and> completions evs + failures evs = length types)"
proof (induction types arbitrary: s r s' evs)
  case Nil
  then show ?case by simp
next
  case (Cons t types)
  show ?case
  proof (cases "format_url tmpl date time t")
    case (Inl e)
    with Cons.prems show ?thesis by (auto simp: format_url_template)
  next
    case (Inr url)
    let ?s1 = "s\<lparr>requests := Suc (requests s)\<rparr>"
    from Cons.prems(1) obtain resp where resp: "w (requests s) url = Some resp"
      and cand: "status_code resp \<noteq> 200 \<or> selected_hrefs (links resp) = []"
      unfolding nothing_to_download_def by blast
    show ?thesis
    proof (cases "status_code resp = 200")
      case False
      obtain r3 s3 evs3 where rest: "types_loop w tmpl date time tdir types ?s1 = (r3, s3, evs3)"
        by (metis prod_cases3)
      from Cons.prems(2) Inr resp False rest
      have "r = r3" "s' = s3" "evs = [Get url False] @ [Print (FailedToAccess url)] @ evs3"
        by (simp_all add: requests_get_def)
      with Cons.IH [OF Cons.prems(1) rest] show ?thesis by simp
    next
      case True
      with cand have "selected_hrefs (links resp) = []" by simp
      then have ll: "links_loop w url tdir (links resp) ?s1 = (None, ?s1, [])"
        by (rule links_loop_nothing)
      obtain r3 s3 evs3 where rest: "types_loop w tmpl date time tdir types ?s1 = (r3, s3, evs3)"
        by (metis prod_cases3)
      from Cons.prems(2) Inr resp True ll rest
      have "r = r3" "s' = s3" "evs = [Get url False] @ [Print (AllDownloaded date time)] @ evs3"
        by (simp_all add: requests_get_def)
      with Cons.IH [OF Cons.prems(1) rest] show ?thesis by simp
    qed
  qed
qed


lemma download_grib_files_no_exists_error:
  "download_grib_files w tmpl date base_dir time types s = (r, s', evs) \<Longrightarrow> r \<noteq> Some FileExistsError"
  by (auto simp: download_grib_files_def os_path_exists_def os_makedirs_def Let_def
      split: if_splits prod.splits option.splits dest: types_loop_frame)

lemma slots_loop_no_exists_error:
  "slots_loop w date base_dir table s = (r, s', evs) \<Longrightarrow> r \<noteq> Some FileExistsError"
proof (induction table arbitrary: s r s' evs)
  case Nil
  then show ?case by simp
next
  case (Cons entry table)
  obtain time types where entry: "entry = (time, types)" by (cases entry)
  obtain r1 s1 evs1 where d: "download_grib_files w url_template date base_dir time types s = (r1, s1, evs1)"
    by (metis prod_cases3)
  note d1 = download_grib_files_no_exists_error [OF d]
  show ?case
  proof (cases r1)
    case (Some e)
    with Cons.prems entry d d1 show ?thesis by auto
  next
    case None
    obtain r2 s2 evs2 where rest: "slots_loop w date base_dir table s1 = (r2, s2, evs2)"
      by (metis prod_cases3)
    from Cons.prems entry d None rest have "r = r2" by simp
    with Cons.IH [OF rest] show ?thesis by simp
  qed
qed

lemma lists_by_dates_no_exists_error:
  "lists_by_dates w dates base_dir s = (r, s', evs) \<Longrightarrow> r \<noteq> Some FileExistsError"
proof (induction dates arbitrary: s r s' evs)
  case Nil
  then show ?case by simp
next
  case (Cons date dates)
  obtain r1 s1 evs1 where d: "slots_loop w date base_dir times_types s = (r1, s1, evs1)"
    by (metis prod_cases3)
  note d1 = slots_loop_no_exists_error [OF d]
  show ?case
  proof (cases r1)
    case (Some e)
    with Cons.prems d d1 show ?thesis by auto
  next
    case None
    obtain r2 s2 evs2 where rest: "lists_by_dates w dates base_dir s1 = (r2, s2, evs2)"
      by (metis prod_cases3)
    from Cons.prems d None rest have "r = r2" by simp
    with Cons.IH [OF rest] show ?thesis by simp
  qed
qed

lemma download_grib_files_existing:
  assumes "fs s (target_dir base_dir date time) \<noteq> None"
  shows "\<forall>p. Makedirs p \<notin> set (snd (snd (download_grib_files w tmpl date base_dir time types s)))"
proof -
  obtain r s' evs where t: "types_loop w tmpl date time (target_dir base_dir date time) types s = (r, s', evs)"
    by (metis prod_cases3)
  have "os_path_exists s (target_dir base_dir date time)"
    using assms by (simp add: os_path_exists_def)
  with t have "download_grib_files w tmpl date base_dir time types s = (r, s', evs)"
    by (simp add: download_grib_files_def Let_def)
  with types_loop_frame [OF t] show ?thesis by simp
qed

lemma download_grib_files_fresh:
  assumes "download_grib_files w tmpl date base_dir time types s = (r, s', evs)"
    and "fs s (target_dir base_dir date time) = None"
    and "\<not> list_ex (\<lambda>a. is_file (fs s a)) (ancestors (target_dir base_dir date time))"
  shows "(\<exists>rest. evs = Makedirs (target_dir base_dir date time) # rest) \<and>
         fs s' (target_dir base_dir date time) = Some Dir \<and>
         (nothing_to_download w \<longrightarrow>
            file_urls evs = [] \<and> touched evs = [] \<and>
            fs s' = (\<lambda>q. if q = target_dir base_dir date time \<or>
                             q \<in> set (ancestors (target_dir base_dir date time))
                          then Some Dir else fs s q))"
proof -
  let ?d = "target_dir base_dir date time"
  let ?s1 = "s\<lparr>fs := (\<lambda>q. if q = ?d \<or> q \<in> set (ancestors ?d) then Some Dir else fs s q)\<rparr>"
  obtain r2 s2 evs2 where t: "types_loop w tmpl date time ?d types ?s1 = (r2, s2, evs2)"
    by (cases "types_loop w tmpl date time ?d types ?s1") auto
  from assms t have res: "r = r2" "s' = s2" "evs = Makedirs ?d # evs2"
    by (simp_all add: download_grib_files_def os_path_exists_def os_makedirs_def Let_def)
  have "fs ?s1 ?d = Some Dir" by simp
  with types_loop_frame [OF t] have dir: "fs s2 ?d = Some Dir" by blast
  have "nothing_to_download w \<longrightarrow> file_urls evs2 = [] \<and> touched evs2 = [] \<and> fs s2 = fs ?s1"
    using types_loop_nothing [OF _ t] by blast
  with res dir show ?thesis by simp
qed

text \<open>
  C10: when the target directory of a (date, slot) pair does not exist yet and can be
  created, creating it is the first thing the run for that pair does, before any
  request, and whatever the requests answer afterwards the directory is there when the
  run ends. When no listing offers anything to download (the listing requests are answered
  with another status than 200, or show no \<open>.grib2\<close> anchor), no file is requested,
  opened or written: the run leaves the file system as it was plus the new, empty
  directory and its missing ancestors.
\<close>

theorem directory_created_before_requests:
  assumes "download_grib_files w tmpl date base_dir time types s = (r, s', evs)"
    and "fs s (target_dir base_dir date time) = None"
    and "\<not> list_ex (\<lambda>a. is_file (fs s a)) (ancestors (target_dir base_dir date time))"
  shows "(\<exists>rest. evs = Makedirs (target_dir base_dir date time) # rest) \<and>
         fs s' (target_dir base_dir date time) = Some Dir \<and>
         (nothing_to_download w \<longrightarrow>
            file_urls evs = [] \<and> touched evs = [] \<and>
            fs s' = (\<lambda>q. if q = target_dir base_dir date time \<or>
                             q \<in> set (ancestors (target_dir base_dir date time))
                          then Some Dir else fs s q))"
  using download_grib_files_fresh [OF assms] .

text \<open>
  C4: in the run for a (date, slot) pair, no file is opened or written before the target
  directory is a directory: it was one when the run started, or the run has created it
  earlier. Creation is guarded by the existence test, so the run never raises
  \<open>FileExistsError\<close>; after a run that returned, the directory exists, and a second run
  for the pair from there (with any server and any product types) creates nothing and
  does not raise it either. The same holds for a whole sweep from any file system.
  The slot is any non-empty string that does not end with the separator, as the four
  slots of the table are.
\<close>

theorem directory_exists_before_writes:
  assumes "download_grib_files w tmpl date base_dir time types s = (r, s', evs)"
    and "time \<noteq> []" and "last time \<noteq> CHR ''/''"
  shows "created_before_writes (target_dir base_dir date time)
           (fs s (target_dir base_dir date time) = Some Dir) evs \<and>
         r \<noteq> Some FileExistsError \<and>
         (r = None \<longrightarrow>
            os_path_exists s' (target_dir base_dir date time) \<and>
            (\<forall>w2 types2.
               fst (download_grib_files w2 tmpl date base_dir time types2 s') \<noteq> Some FileExistsError \<and>
               (\<forall>p. Makedirs p \<notin> set (snd (snd (download_grib_files w2 tmpl date base_dir time types2 s')))))) \<and>
         (\<forall>w0 dates s0. fst (lists_by_dates w0 dates base_dir s0) \<noteq> Some FileExistsError)"
proof -
  let ?d = "target_dir base_dir date time"
  have d: "?d \<noteq> []" "last ?d \<noteq> CHR ''/''" using assms(2,3) target_dir_last by blast+
  have monitor: "created_before_writes ?d (fs s ?d = Some Dir) evs \<and> (r = None \<longrightarrow> fs s' ?d \<noteq> None)"
  proof (cases "fs s ?d")
    case None
    show ?thesis
    proof (cases "list_ex (\<lambda>a. is_file (fs s a)) (ancestors ?d)")
      case True
      with assms(1) None have "evs = []" "r \<noteq> None"
        by (auto simp: download_grib_files_def os_path_exists_def os_makedirs_def Let_def)
      then show ?thesis by auto
    next
      case False
      from download_grib_files_fresh [OF assms(1) None False]
      obtain rest where "evs = Makedirs ?d # rest" and "fs s' ?d = Some Dir" by blast
      then show ?thesis by (simp add: created_before_writes_ready)
    qed
  next
    case (Some n)
    obtain r2 s2 evs2 where t: "types_loop w tmpl date time ?d types s = (r2, s2, evs2)"
      by (metis prod_cases3)
    have "os_path_exists s ?d" using Some by (simp add: os_path_exists_def)
    with assms(1) t have res: "r = r2" "s' = s2" "evs = evs2"
      by (simp_all add: download_grib_files_def Let_def)
    from types_loop_frame [OF t] Some have ex: "fs s2 ?d \<noteq> None" by auto
    show ?thesis
    proof (cases n)
      case Dir
      with Some res ex show ?thesis by (simp add: created_before_writes_ready)
    next
      case (File c)
      with Some have "fs s ?d = Some (File c)" by simp
      from types_loop_blocked [OF t this d] have "touched evs2 = []" by simp
      with res ex show ?thesis by (simp add: created_before_writes_untouched)
    qed
  qed
  have again: "r = None \<longrightarrow>
            os_path_exists s' ?d \<and>
            (\<forall>w2 types2.
               fst (download_grib_files w2 tmpl date base_dir time types2 s') \<noteq> Some FileExistsError \<and>
               (\<forall>p. Makedirs p \<notin> set (snd (snd (download_grib_files w2 tmpl date base_dir time types2 s')))))"
  proof (intro impI conjI allI)
    assume "r = None"
    with monitor show ex: "os_path_exists s' ?d" by (simp add: os_path_exists_def)
    fix w2 types2
    obtain r2 s2 evs2 where x: "download_grib_files w2 tmpl date base_dir time types2 s' = (r2, s2, evs2)"
      by (metis prod_cases3)
    from download_grib_files_no_exists_error [OF x] x
    show "fst (download_grib_files w2 tmpl date base_dir time types2 s') \<noteq> Some FileExistsError"
      by simp
    fix p
    show "Makedirs p \<notin> set (snd (snd (download_grib_files w2 tmpl date base_dir time types2 s')))"
      using download_grib_files_existing [of s' base_dir date time w2 tmpl types2] ex
      by (simp add: os_path_exists_def)
  qed
  have sweep: "\<forall>w0 dates s0. fst (lists_by_dates w0 dates base_dir s0) \<noteq> Some FileExistsError"
  proof (intro allI)
    fix w0 dates s0
    obtain r0 s1 evs0 where x: "lists_by_dates w0 dates base_dir s0 = (r0, s1, evs0)"
      by (metis prod_cases3)
    from lists_by_dates_no_exists_error [OF x] x
    show "fst (lists_by_dates w0 dates base_dir s0) \<noteq> Some FileExistsError" by simp
  qed
  have m1: "created_before_writes ?d (fs s ?d = Some Dir) evs" using monitor by (rule conjunct1)
  have ne: "r \<noteq> Some FileExistsError" using assms(1) by (rule download_grib_files_no_exists_error)
  show ?thesis by (intro conjI) (fact m1, fact ne, fact again, fact sweep)
qed




lemma nothing_to_download_absent_world: "nothing_to_download absent_world"
  by (simp add: nothing_to_download_def absent_world_def)

theorem directory_created_before_requests_witness:
  "nothing_to_download absent_world \<and>
   fs empty_state (target_dir ''out'' ''20240311'' ''06z'') = None \<and>
   snd (snd (download_grib_files absent_world url_template ''20240311'' ''out'' ''06z''
               [''scda'', ''scwv''] empty_state)) =
     [Makedirs ''out/2024_03_11/06z'',
      Get ''https://data.ecmwf.int/forecasts/20240311/06z/ifs/0p25/scda/'' False,
      Print (FailedToAccess ''https://data.ecmwf.int/forecasts/20240311/06z/ifs/0p25/scda/''),
      Get ''https://data.ecmwf.int/forecasts/20240311/06z/ifs/0p25/scwv/'' False,
      Print (FailedToAccess ''https://data.ecmwf.int/forecasts/20240311/06z/ifs/0p25/scwv/'')] \<and>
   fs (fst (snd (download_grib_files absent_world url_template ''20240311'' ''out'' ''06z''
               [''scda'', ''scwv''] empty_state))) (target_dir ''out'' ''20240311'' ''06z'') = Some Dir \<and>
   touched (snd (snd (download_grib_files absent_world url_template ''20240311'' ''out'' ''06z''
               [''scda'', ''scwv''] empty_state))) = []"
proof -
  let ?run = "download_grib_files absent_world url_template ''20240311'' ''out'' ''06z''
               [''scda'', ''scwv''] empty_state"
  have a: "fs empty_state (target_dir ''out'' ''20240311'' ''06z'') = None"
    by (simp add: empty_state_def)
  have c: "\<not> list_ex (\<lambda>a. is_file (fs empty_state a)) (ancestors (target_dir ''out'' ''20240311'' ''06z''))"
    by (simp add: empty_state_def is_file_def list_ex_iff)
  have run: "?run = (fst ?run, fst (snd ?run), snd (snd ?run))" by simp
  note th = directory_created_before_requests [OF run a c]
  have dir: "fs (fst (snd ?run)) (target_dir ''out'' ''20240311'' ''06z'') = Some Dir"
    using th by (rule conjunct2 [THEN conjunct1])
  have "nothing_to_download absent_world \<longrightarrow>
      file_urls (snd (snd ?run)) = [] \<and> touched (snd (snd ?run)) = [] \<and>
      fs (fst (snd ?run)) =
        (\<lambda>q. if q = target_dir ''out'' ''20240311'' ''06z'' \<or>
                 q \<in> set (ancestors (target_dir ''out'' ''20240311'' ''06z''))
              then Some Dir else fs empty_state q)"
    using th by (rule conjunct2 [THEN conjunct2])
  with nothing_to_download_absent_world have quiet: "touched (snd (snd ?run)) = []" by blast
  have evs: "snd (snd ?run) =
     [Makedirs ''out/2024_03_11/06z'',
      Get ''https://data.ecmwf.int/forecasts/20240311/06z/ifs/0p25/scda/'' False,
      Print (FailedToAccess ''https://data.ecmwf.int/forecasts/20240311/06z/ifs/0p25/scda/''),
      Get ''https://data.ecmwf.int/forecasts/20240311/06z/ifs/0p25/scwv/'' False,
      Print (FailedToAccess ''https://data.ecmwf.int/forecasts/20240311/06z/ifs/0p25/scwv/'')]"
    by code_simp
  show ?thesis
    by (intro conjI) (fact nothing_to_download_absent_world, fact a, fact evs, fact dir, fact quiet)
qed

theorem directory_exists_before_writes_witness:
  "''00z'' \<noteq> [] \<and> last ''00z'' \<noteq> CHR ''/'' \<and>
   fst (download_grib_files oper_world url_template ''20240311'' ''out'' ''00z''
          [''oper'', ''wave''] empty_state) = None \<and>
   opened (snd (snd (download_grib_files oper_world url_template ''20240311'' ''out'' ''00z''
          [''oper'', ''wave''] empty_state))) =
     [''out/2024_03_11/00z/a.grib2'', ''out/2024_03_11/00z/c.grib2''] \<and>
   created_before_writes (target_dir ''out'' ''20240311'' ''00z'')
     (fs empty_state (target_dir ''out'' ''20240311'' ''00z'') = Some Dir)
     (snd (snd (download_grib_files oper_world url_template ''20240311'' ''out'' ''00z''
          [''oper'', ''wave''] empty_state))) \<and>
   fst (download_grib_files oper_world url_template ''20240311'' ''out'' ''00z'' [''oper'', ''wave'']
          (fst (snd (download_grib_files oper_world url_template ''20240311'' ''out'' ''00z''
             [''oper'', ''wave''] empty_state)))) \<noteq> Some FileExistsError \<and>
   Makedirs (target_dir ''out'' ''20240311'' ''00z'') \<notin>
     set (snd (snd (download_grib_files oper_world url_template ''20240311'' ''out'' ''00z'' [''oper'', ''wave'']
          (fst (snd (download_grib_files oper_world url_template ''20240311'' ''out'' ''00z''
             [''oper'', ''wave''] empty_state))))))"
proof -
  let ?run = "download_grib_files oper_world url_template ''20240311'' ''out'' ''00z''
          [''oper'', ''wave''] empty_state"
  have t1: "''00z'' \<noteq> []" by simp
  have t2: "last ''00z'' \<noteq> CHR ''/''" by simp
  have ok: "fst ?run = None" by code_simp
  have op: "opened (snd (snd ?run)) = [''out/2024_03_11/00z/a.grib2'', ''out/2024_03_11/00z/c.grib2'']"
    by code_simp
  have run: "?run = (fst ?run, fst (snd ?run), snd (snd ?run))" by simp
  note th = directory_exists_before_writes [OF run t1 t2]
  have m: "created_before_writes (target_dir ''out'' ''20240311'' ''00z'')
     (fs empty_state (target_dir ''out'' ''20240311'' ''00z'') = Some Dir) (snd (snd ?run))"
    using th by (rule conjunct1)
  have "fst ?run = None \<longrightarrow>
      os_path_exists (fst (snd ?run)) (target_dir ''out'' ''20240311'' ''00z'') \<and>
      (\<forall>w2 types2.
         fst (download_grib_files w2 url_template ''20240311'' ''out'' ''00z'' types2 (fst (snd ?run)))
           \<noteq> Some FileExistsError \<and>
         (\<forall>p. Makedirs p \<notin> set (snd (snd (download_grib_files w2 url_template ''20240311'' ''out'' ''00z'' types2 (fst (snd ?run)))))))"
    using th by (rule conjunct2 [THEN conjunct2, THEN conjunct1])
  with ok have again: "\<forall>w2 types2.
         fst (download_grib_files w2 url_template ''20240311'' ''out'' ''00z'' types2 (fst (snd ?run)))
           \<noteq> Some FileExistsError \<and>
         (\<forall>p. Makedirs p \<notin> set (snd (snd (download_grib_files w2 url_template ''20240311'' ''out'' ''00z'' types2 (fst (snd ?run))))))"
    by (simp only: simp_thms)
  from again have a1: "fst (download_grib_files oper_world url_template ''20240311'' ''out'' ''00z'' [''oper'', ''wave''] (fst (snd ?run)))
           \<noteq> Some FileExistsError" by (rule allE [where x = oper_world], elim allE conjE)
  from again have a2: "Makedirs (target_dir ''out'' ''20240311'' ''00z'') \<notin>
     set (snd (snd (download_grib_files oper_world url_template ''20240311'' ''out'' ''00z'' [''oper'', ''wave''] (fst (snd ?run)))))"
    by (rule allE [where x = oper_world], elim allE conjE)
  show ?thesis
    by (intro conjI) (fact t1, fact t2, fact ok, fact op, fact m, fact a1, fact a2)
qed

text \<open>
  C1 as stated fails: it promises the listing requests of all triples for every run. When
  the second listing request raises, the sweep over two dates ends with that fault after
  two listing requests of the sixteen.
\<close>

theorem sweep_stops_at_raising_listing:
  "fst (lists_by_dates refusing_world [''20240311'', ''20240312''] ''out'' empty_state) =
     Some RequestException \<and>
   listing_urls (snd (snd (lists_by_dates refusing_world [''20240311'', ''20240312''] ''out'' empty_state))) =
     [''https://data.ecmwf.int/forecasts/20240311/00z/ifs/0p25/oper/'',
      ''https://data.ecmwf.int/forecasts/20240311/00z/ifs/0p25/wave/''] \<and>
   length (sweep_listings [''20240311'', ''20240312'']) = 16"
  by code_simp

lemma download_file_returns:
  assumes "download_file w url tdir h s = (None, s', evs)"
  shows "\<exists>resp. w (requests s) (url @ os_path_basename h) = Some resp \<and> \<not> stream_fails resp \<and>
           s' = s\<lparr>fs := (fs s)(os_path_join tdir [os_path_basename h] \<mapsto> File (concat (iter_content resp))),
                  requests := Suc (requests s)\<rparr> \<and>
           evs = [Get (url @ os_path_basename h) True, Open (os_path_join tdir [os_path_basename h])] @
                 map (Write (os_path_join tdir [os_path_basename h])) (iter_content resp) @
                 [Print (FileDownloaded (os_path_basename h))]"
proof -
  let ?p = "os_path_join tdir [os_path_basename h]"
  let ?s1 = "s\<lparr>requests := Suc (requests s)\<rparr>"
  from assms obtain resp where resp: "w (requests s) (url @ os_path_basename h) = Some resp"
    by (cases "w (requests s) (url @ os_path_basename h)")
       (auto simp: download_file_def requests_get_def Let_def)
  have ok: "fs s ?p \<noteq> Some Dir \<and> parent_is_dir (fs s) ?p"
  proof (rule ccontr)
    assume "\<not> ?thesis"
    with assms resp show False
      by (auto simp: download_file_def requests_get_def open_wb_def Let_def split: if_splits)
  qed
  let ?s2 = "?s1\<lparr>fs := (fs ?s1)(?p \<mapsto> File [])\<rparr>"
  have op: "open_wb ?p ?s1 = (None, ?s2, [Open ?p])"
    using ok by (simp add: open_wb_def)
  have "fs ?s2 ?p = Some (File [])" by simp
  from write_chunks_content [OF this, of "iter_content resp"]
  have wr: "write_chunks ?p (iter_content resp) ?s2 =
      (?s2\<lparr>fs := (fs ?s2)(?p \<mapsto> File (concat (iter_content resp)))\<rparr>, map (Write ?p) (iter_content resp))"
    by simp
  from assms resp op wr
  have "\<not> stream_fails resp"
    and "s' = s\<lparr>fs := (fs s)(?p \<mapsto> File (concat (iter_content resp))), requests := Suc (requests s)\<rparr>"
    and "evs = [Get (url @ os_path_basename h) True, Open ?p] @ map (Write ?p) (iter_content resp) @
                  [Print (FileDownloaded (os_path_basename h))]"
    by (auto simp: download_file_def requests_get_def Let_def split: if_splits)
  with resp show ?thesis by blast
qed

lemma links_loop_downloaded:
  "links_loop w url tdir ls s = (None, s', evs) \<Longrightarrow>
     (s', evs) = downloaded w url tdir (selected_hrefs ls) s"
proof (induction ls arbitrary: s s' evs)
  case Nil
  then show ?case by simp
next
  case (Cons href rest)
  show ?case
  proof (cases "\<exists>h. href = Some h \<and> endswith h ''.grib2''")
    case False
    with Cons.prems have "links_loop w url tdir rest s = (None, s', evs)"
      by (auto split: option.splits if_splits)
    from Cons.IH [OF this] False show ?thesis by (cases href) auto
  next
    case True
    then obtain h where h: "href = Some h" "endswith h ''.grib2''" by blast
    then have ne: "h \<noteq> []" by (simp add: endswith_nonempty)
    obtain r1 s1 evs1 where d: "download_file w url tdir h s = (r1, s1, evs1)"
      by (metis prod_cases3)
    obtain r2 s2 evs2 where rest: "links_loop w url tdir rest s1 = (r2, s2, evs2)"
      by (metis prod_cases3)
    from Cons.prems h ne d rest have r1: "r1 = None"
      by (cases r1) simp_all
    with Cons.prems h ne d rest have res: "r2 = None" "s' = s2" "evs = evs1 @ evs2" by simp_all
    from download_file_returns [OF d [unfolded r1]] obtain resp
      where resp: "w (requests s) (url @ os_path_basename h) = Some resp"
        and s1: "s1 = s\<lparr>fs := (fs s)(os_path_join tdir [os_path_basename h] \<mapsto> File (concat (iter_content resp))),
                  requests := Suc (requests s)\<rparr>"
        and evs1: "evs1 = [Get (url @ os_path_basename h) True, Open (os_path_join tdir [os_path_basename h])] @
                 map (Write (os_path_join tdir [os_path_basename h])) (iter_content resp) @
                 [Print (FileDownloaded (os_path_basename h))]"
      by blast
    from Cons.IH [OF rest [unfolded res(1)]]
    have "downloaded w url tdir (selected_hrefs rest) s1 = (s2, evs2)" by simp
    with h res resp s1 evs1 show ?thesis
      by (simp add: Let_def)
  qed
qed

lemma touched_writes: "set (touched (map (Write p) cs)) \<subseteq> {p}"
  by (induction cs) simp_all

lemma download_file_touched:
  assumes "download_file w url tdir h s = (r, s', evs)"
  shows "set (touched evs) \<subseteq> {os_path_join tdir [os_path_basename h]}"
  using download_file_cases [OF assms] touched_writes [of "os_path_join tdir [os_path_basename h]"]
  by (auto split: if_splits)

lemma links_loop_touched:
  "links_loop w url tdir ls s = (r, s', evs) \<Longrightarrow>
     set (touched evs) \<subseteq> set (map (\<lambda>h. os_path_join tdir [os_path_basename h]) (selected_hrefs ls))"
proof (induction ls arbitrary: s r s' evs)
  case Nil
  then show ?case by simp
next
  case (Cons href rest)
  show ?case
  proof (cases "\<exists>h. href = Some h \<and> endswith h ''.grib2''")
    case False
    with Cons.prems have "links_loop w url tdir rest s = (r, s', evs)"
      by (auto split: option.splits if_splits)
    from Cons.IH [OF this] False show ?thesis by (cases href) auto
  next
    case True
    then obtain h where h: "href = Some h" "endswith h ''.grib2''" by blast
    then have ne: "h \<noteq> []" by (simp add: endswith_nonempty)
    obtain r1 s1 evs1 where d: "download_file w url tdir h s = (r1, s1, evs1)"
      by (metis prod_cases3)
    note d1 = download_file_touched [OF d]
    show ?thesis
    proof (cases r1)
      case (Some e)
      with Cons.prems h ne d have "evs = evs1" by simp
      with d1 h show ?thesis by auto
    next
      case None
      obtain r2 s2 evs2 where rest: "links_loop w url tdir rest s1 = (r2, s2, evs2)"
        by (metis prod_cases3)
      from Cons.prems h ne d None rest have "evs = evs1 @ evs2" by simp
      with Cons.IH [OF rest] d1 h show ?thesis by auto
    qed
  qed
qed


text \<open>
  C3: on a fetched listing page, the anchors downloaded are exactly those whose \<open>href\<close>
  is present and ends with \<open>.grib2\<close>, in document order. A loop that returns has done
  what \<open>downloaded\<close> describes for these anchors and nothing else: each file was
  requested, written under the final path component of its \<open>href\<close> (what follows the
  last \<open>/\<close>), and reported; the state and the events are exactly those. In every run,
  also one cut short by a fault, the other anchors are ignored: no request goes out for
  them and no file event touches a path other than those of the selected anchors; the
  requests and opened files are an initial part of the selected ones.
\<close>

theorem links_loop_selects_grib2:
  "links_loop w url tdir ls s = (r, s', evs) \<Longrightarrow>
     listing_urls evs = [] \<and>
     prefix (file_urls evs) (map (\<lambda>h. url @ os_path_basename h) (selected_hrefs ls)) \<and>
     prefix (opened evs) (map (\<lambda>h. os_path_join tdir [os_path_basename h]) (selected_hrefs ls)) \<and>
     set (touched evs) \<subseteq> set (map (\<lambda>h. os_path_join tdir [os_path_basename h]) (selected_hrefs ls)) \<and>
     (r = None \<longrightarrow>
        (s', evs) = downloaded w url tdir (selected_hrefs ls) s \<and>
        file_urls evs = map (\<lambda>h. url @ os_path_basename h) (selected_hrefs ls) \<and>
        opened evs = map (\<lambda>h. os_path_join tdir [os_path_basename h]) (selected_hrefs ls) \<and>
        printed evs = map (\<lambda>h. FileDownloaded (os_path_basename h)) (selected_hrefs ls)) \<and>
     (\<forall>h. CHR ''/'' \<notin> set (os_path_basename h) \<and>
          (\<exists>pre. h = pre @ os_path_basename h \<and> (pre = [] \<or> last pre = CHR ''/'')))"
proof -
  assume run: "links_loop w url tdir ls s = (r, s', evs)"
  have a: "listing_urls evs = []" using run by (rule links_loop_listing)
  note b = links_loop_file_urls [OF run]
  note c = links_loop_opened [OF run]
  note d = links_loop_touched [OF run]
  have e: "r = None \<longrightarrow> (s', evs) = downloaded w url tdir (selected_hrefs ls) s"
    using run links_loop_downloaded by blast
  from a b c d e basename_final_component show ?thesis by blast
qed

theorem links_loop_selects_grib2_witness:
  "fst (links_loop oper_world ''https://h/d/'' ''out''
          [Some ''a.grib2'', Some ''b.txt'', Some ''c.grib2'', None] out_state) = None \<and>
   selected_hrefs [Some ''a.grib2'', Some ''b.txt'', Some ''c.grib2'', None] = [''a.grib2'', ''c.grib2''] \<and>
   snd (snd (links_loop oper_world ''https://h/d/'' ''out''
          [Some ''a.grib2'', Some ''b.txt'', Some ''c.grib2'', None] out_state)) =
     [Get ''https://h/d/a.grib2'' True, Open ''out/a.grib2'',
      Write ''out/a.grib2'' ''GR'', Write ''out/a.grib2'' ''IB'', Print (FileDownloaded ''a.grib2''),
      Get ''https://h/d/c.grib2'' True, Open ''out/c.grib2'',
      Write ''out/c.grib2'' ''GR'', Write ''out/c.grib2'' ''IB'', Print (FileDownloaded ''c.grib2'')] \<and>
   fs (fst (snd (links_loop oper_world ''https://h/d/'' ''out''
          [Some ''a.grib2'', Some ''b.txt'', Some ''c.grib2'', None] out_state))) ''out/a.grib2'' =
     Some (File ''GRIB'') \<and>
   fs (fst (snd (links_loop oper_world ''https://h/d/'' ''out''
          [Some ''a.grib2'', Some ''b.txt'', Some ''c.grib2'', None] out_state))) ''out/b.txt'' = None"
proof -
  let ?ls = "[Some ''a.grib2'', Some ''b.txt'', Some ''c.grib2'', None]"
  let ?run = "links_loop oper_world ''https://h/d/'' ''out'' ?ls out_state"
  have ok: "fst ?run = None" by code_simp
  have sel: "selected_hrefs ?ls = [''a.grib2'', ''c.grib2'']" by code_simp
  have run: "?run = (fst ?run, fst (snd ?run), snd (snd ?run))" by simp
  note th = links_loop_selects_grib2 [OF run]
  from th ok have "(fst (snd ?run), snd (snd ?run)) =
      downloaded oper_world ''https://h/d/'' ''out'' (selected_hrefs ?ls) out_state" by blast
  then have "snd (fst (snd ?run), snd (snd ?run)) =
      snd (downloaded oper_world ''https://h/d/'' ''out'' (selected_hrefs ?ls) out_state)"
    by (rule arg_cong)
  then have evs: "snd (snd ?run) =
      snd (downloaded oper_world ''https://h/d/'' ''out'' [''a.grib2'', ''c.grib2''] out_state)"
    by (simp only: snd_conv sel)
  have dl: "snd (downloaded oper_world ''https://h/d/'' ''out'' [''a.grib2'', ''c.grib2''] out_state) =
     [Get ''https://h/d/a.grib2'' True, Open ''out/a.grib2'',
      Write ''out/a.grib2'' ''GR'', Write ''out/a.grib2'' ''IB'', Print (FileDownloaded ''a.grib2''),
      Get ''https://h/d/c.grib2'' True, Open ''out/c.grib2'',
      Write ''out/c.grib2'' ''GR'', Write ''out/c.grib2'' ''IB'', Print (FileDownloaded ''c.grib2'')]"
    by code_simp
  have f1: "fs (fst (snd ?run)) ''out/a.grib2'' = Some (File ''GRIB'')" by code_simp
  have f2: "fs (fst (snd ?run)) ''out/b.txt'' = None" by code_simp
  show ?thesis
    by (intro conjI) (fact ok, fact sel, simp only: evs dl, fact f1, fact f2)
qed

lemma answered_200_append:
  "answered_200 w n (xs @ ys) =
     answered_200 w n xs + answered_200 w (n + length (listing_urls xs) + length (file_urls xs)) ys"
proof (induction xs arbitrary: n)
  case Nil
  then show ?case by simp
next
  case (Cons e xs)
  then show ?case by (cases e) simp_all
qed

lemma answered_200_no_listing: "listing_urls evs = [] \<Longrightarrow> answered_200 w n evs = 0"
proof (induction evs arbitrary: n)
  case Nil
  then show ?case by simp
next
  case (Cons e evs)
  then show ?case by (cases e) (simp_all split: if_splits)
qed

lemma download_file_requests:
  assumes "download_file w url tdir h s = (r, s', evs)"
  shows "requests s' = Suc (requests s) \<and> length (file_urls evs) = 1"
proof -
  have "requests s' = Suc (requests s)"
    using download_file_cases [OF assms] by auto
  moreover have "length (file_urls evs) = 1"
    using download_file_file_urls [OF assms] by simp
  ultimately show ?thesis by simp
qed

lemma links_loop_requests:
  "links_loop w url tdir ls s = (r, s', evs) \<Longrightarrow> requests s' = requests s + length (file_urls evs)"
proof (induction ls arbitrary: s r s' evs)
  case Nil
  then show ?case by simp
next
  case (Cons href rest)
  show ?case
  proof (cases "\<exists>h. href = Some h \<and> endswith h ''.grib2''")
    case False
    with Cons.prems have "links_loop w url tdir rest s = (r, s', evs)"
      by (auto split: option.splits if_splits)
    then show ?thesis by (rule Cons.IH)
  next
    case True
    then obtain h where h: "href = Some h" "endswith h ''.grib2''" by blast
    then have ne: "h \<noteq> []" by (simp add: endswith_nonempty)
    obtain r1 s1 evs1 where d: "download_file w url tdir h s = (r1, s1, evs1)"
      by (metis prod_cases3)
    note d1 = download_file_requests [OF d]
    show ?thesis
    proof (cases r1)
      case (Some e)
      with Cons.prems h ne d have "s' = s1" "evs = evs1" by simp_all
      with d1 show ?thesis by simp
    next
      case None
      obtain r2 s2 evs2 where rest: "links_loop w url tdir rest s1 = (r2, s2, evs2)"
        by (metis prod_cases3)
      from Cons.prems h ne d None rest have "s' = s2" "evs = evs1 @ evs2" by simp_all
      with Cons.IH [OF rest] d1 show ?thesis by simp
    qed
  qed
qed

lemma links_loop_no_completion:
  assumes "links_loop w url tdir ls s = (r, s', evs)"
  shows "completions evs = 0 \<and> failures evs = 0"
proof -
  from links_loop_opened [OF assms]
  have "prefix (printed evs) (map (\<lambda>h. FileDownloaded (os_path_basename h)) (selected_hrefs ls))"
    by simp
  then have "set (printed evs) \<subseteq> set (map (\<lambda>h. FileDownloaded (os_path_basename h)) (selected_hrefs ls))"
    by (rule set_mono_prefix)
  then have "\<forall>m\<in>set (printed evs). \<exists>n. m = FileDownloaded n" by auto
  then show ?thesis
    by (auto simp: completions_def failures_def filter_empty_conv)
qed

lemma types_loop_answered:
  "types_loop w tmpl date time tdir types s = (r, s', evs) \<Longrightarrow>
     completions evs \<le> answered_200 w (requests s) evs \<and>
     (r = None \<longrightarrow> completions evs = answered_200 w (requests s) evs)"
proof (induction types arbitrary: s r s' evs)
  case Nil
  then show ?case by simp
next
  case (Cons t types)
  show ?case
  proof (cases "format_url tmpl date time t")
    case (Inl e)
    with Cons.prems show ?thesis by auto
  next
    case (Inr url)
    let ?s1 = "s\<lparr>requests := Suc (requests s)\<rparr>"
    show ?thesis
    proof (cases "w (requests s) url")
      case None
      with Cons.prems Inr show ?thesis by (auto simp: requests_get_def)
    next
      case (Some resp)
      show ?thesis
      proof (cases "status_code resp = 200")
        case False
        obtain r3 s3 evs3 where rest: "types_loop w tmpl date time tdir types ?s1 = (r3, s3, evs3)"
          by (metis prod_cases3)
        from Cons.prems Inr Some False rest
        have "r = r3" "evs = [Get url False] @ [Print (FailedToAccess url)] @ evs3"
          by (simp_all add: requests_get_def)
        with Cons.IH [OF rest] Some False show ?thesis by simp
      next
        case True
        obtain r2 s2 evs2 where ll: "links_loop w url tdir (links resp) ?s1 = (r2, s2, evs2)"
          by (metis prod_cases3)
        have l0: "listing_urls evs2 = []" using ll by (rule links_loop_listing)
        have l1: "completions evs2 = 0" using links_loop_no_completion [OF ll] by simp
        have l2: "requests s2 = Suc (requests s) + length (file_urls evs2)"
          using links_loop_requests [OF ll] by simp
        have l3: "answered_200 w (Suc (requests s)) evs2 = 0" using l0 by (rule answered_200_no_listing)
        show ?thesis
        proof (cases r2)
          case (Some e)
          with Cons.prems Inr \<open>w (requests s) url = Some resp\<close> True ll
          have "r = r2" "evs = [Get url False] @ evs2"
            by (simp_all add: requests_get_def)
          with Some l1 show ?thesis by simp
        next
          case None
          obtain r3 s3 evs3 where rest: "types_loop w tmpl date time tdir types s2 = (r3, s3, evs3)"
            by (metis prod_cases3)
          from Cons.prems Inr \<open>w (requests s) url = Some resp\<close> True ll None rest
          have "r = r3" "evs = [Get url False] @ evs2 @ [Print (AllDownloaded date time)] @ evs3"
            by (simp_all add: requests_get_def)
          with Cons.IH [OF rest] l0 l1 l2 l3 \<open>w (requests s) url = Some resp\<close> True
          show ?thesis by (simp add: answered_200_append)
        qed
      qed
    qed
  qed
qed




subsection \<open>A sweep with nothing to download\<close>

lemma creatable_mono:
  "\<forall>a. is_file (fs s' a) \<longrightarrow> is_file (fs s a) \<Longrightarrow> creatable (fs s) p \<Longrightarrow> creatable (fs s') p"
  by (auto simp: creatable_def list_ex_iff)

lemma download_grib_files_quiet:
  assumes "nothing_to_download w" and "creatable (fs s) (target_dir base_dir date time)"
    and "download_grib_files w url_template date base_dir time types s = (r, s', evs)"
  shows "r = None \<and> (\<forall>a. is_file (fs s' a) \<longrightarrow> is_file (fs s a)) \<and>
         completions evs + failures evs = length types"
proof -
  let ?d = "target_dir base_dir date time"
  let ?s1 = "if os_path_exists s ?d then s
             else s\<lparr>fs := (\<lambda>q. if q = ?d \<or> q \<in> set (ancestors ?d) then Some Dir else fs s q)\<rparr>"
  let ?e1 = "if os_path_exists s ?d then [] else [Makedirs ?d]"
  obtain r2 s2 evs2 where t: "types_loop w url_template date time ?d types ?s1 = (r2, s2, evs2)"
    by (cases "types_loop w url_template date time ?d types ?s1") auto
  have "\<not> list_ex (\<lambda>a. is_file (fs s a)) (ancestors ?d)"
    using assms(2) by (simp add: creatable_def)
  with assms(3) t have res: "r = r2" "s' = s2" "evs = ?e1 @ evs2"
    by (auto simp: download_grib_files_def os_makedirs_def os_path_exists_def Let_def split: if_splits)
  have keep: "\<forall>a. is_file (fs ?s1 a) \<longrightarrow> is_file (fs s a)"
    by (simp add: is_file_def)
  from types_loop_nothing [OF assms(1) t]
  have "r2 = None" "fs s2 = fs ?s1" "completions evs2 + failures evs2 = length types" by simp_all
  with res keep show ?thesis by simp
qed

lemma slots_loop_quiet:
  "nothing_to_download w \<Longrightarrow>
     list_all (creatable (fs s)) (map (\<lambda>(time, types). target_dir base_dir date time) table) \<Longrightarrow>
     slots_loop w date base_dir table s = (r, s', evs) \<Longrightarrow>
     r = None \<and> (\<forall>a. is_file (fs s' a) \<longrightarrow> is_file (fs s a)) \<and>
     completions evs + failures evs = length (slot_listings date table)"
proof (induction table arbitrary: s r s' evs)
  case Nil
  then show ?case by (simp add: slot_listings_def)
next
  case (Cons entry table)
  obtain time types where entry: "entry = (time, types)" by (cases entry)
  obtain r1 s1 evs1 where d: "download_grib_files w url_template date base_dir time types s = (r1, s1, evs1)"
    by (metis prod_cases3)
  from Cons.prems(2) entry have c1: "creatable (fs s) (target_dir base_dir date time)"
    and c2: "list_all (creatable (fs s)) (map (\<lambda>(time, types). target_dir base_dir date time) table)"
    by simp_all
  from download_grib_files_quiet [OF Cons.prems(1) c1 d]
  have d1: "r1 = None" "\<forall>a. is_file (fs s1 a) \<longrightarrow> is_file (fs s a)"
    "completions evs1 + failures evs1 = length types"
    by simp_all
  from c2 d1(2) have c3: "list_all (creatable (fs s1)) (map (\<lambda>(time, types). target_dir base_dir date time) table)"
    by (auto simp: list_all_iff intro: creatable_mono)
  obtain r2 s2 evs2 where rest: "slots_loop w date base_dir table s1 = (r2, s2, evs2)"
    by (metis prod_cases3)
  from Cons.prems(3) entry d d1(1) rest have "r = r2" "s' = s2" "evs = evs1 @ evs2" by simp_all
  with Cons.IH [OF Cons.prems(1) c3 rest] d1(2,3) entry show ?case
    by (simp add: slot_listings_def)
qed

lemma lists_by_dates_quiet:
  "nothing_to_download w \<Longrightarrow> list_all (creatable (fs s)) (sweep_dirs base_dir dates) \<Longrightarrow>
     lists_by_dates w dates base_dir s = (r, s', evs) \<Longrightarrow>
     r = None \<and> (\<forall>a. is_file (fs s' a) \<longrightarrow> is_file (fs s a)) \<and>
     completions evs + failures evs = 8 * length dates"
proof (induction dates arbitrary: s r s' evs)
  case Nil
  then show ?case by simp
next
  case (Cons date dates)
  obtain r1 s1 evs1 where d: "slots_loop w date base_dir times_types s = (r1, s1, evs1)"
    by (metis prod_cases3)
  from Cons.prems(2)
  have c1: "list_all (creatable (fs s)) (map (\<lambda>(time, types). target_dir base_dir date time) times_types)"
    and c2: "list_all (creatable (fs s)) (sweep_dirs base_dir dates)"
    by (simp_all add: sweep_dirs_def)
  from slots_loop_quiet [OF Cons.prems(1) c1 d]
  have d1: "r1 = None" "\<forall>a. is_file (fs s1 a) \<longrightarrow> is_file (fs s a)"
    "completions evs1 + failures evs1 = length (slot_listings date times_types)"
    by simp_all
  from c2 d1(2) have c3: "list_all (creatable (fs s1)) (sweep_dirs base_dir dates)"
    by (auto simp: list_all_iff intro: creatable_mono)
  have eight: "length (slot_listings date times_types) = 8"
    by (simp add: slot_listings_def times_types_def)
  obtain r2 s2 evs2 where rest: "lists_by_dates w dates base_dir s1 = (r2, s2, evs2)"
    by (metis prod_cases3)
  from Cons.prems(3) d d1(1) rest have "r = r2" "s' = s2" "evs = evs1 @ evs2" by simp_all
  with Cons.IH [OF Cons.prems(1) c3 rest] d1(2,3) eight show ?case by simp
qed



end
